theory Spec2Isabelle
  imports Complex_Main "HOL-Library.List_Lexorder" "HOL-Library.Multiset"
    "HOL-Library.Code_Target_Nat"
begin

section \<open>JavaScript values used by the library\<close>

text \<open>
  A JavaScript \<open>number\<close> is a double: a finite value, one of the two infinities, or
  \<open>NaN\<close>. Only comparisons and the integrality test are used by the code, so a finite
  double is represented by the rational it denotes (\<open>-0\<close> and \<open>+0\<close> compare equal and are
  identified).
\<close>

datatype number = NaN | NegInfinity | Finite rat | PosInfinity

text \<open>The relational operators on numbers: every comparison with \<open>NaN\<close> is false.\<close>

fun num_lt :: "number \<Rightarrow> number \<Rightarrow> bool" where
  "num_lt NaN b = False"
| "num_lt a NaN = False"
| "num_lt (Finite a) (Finite b) = (a < b)"
| "num_lt a NegInfinity = False"
| "num_lt NegInfinity b = True"
| "num_lt PosInfinity b = False"
| "num_lt a PosInfinity = True"

fun num_le :: "number \<Rightarrow> number \<Rightarrow> bool" where
  "num_le NaN b = False"
| "num_le a NaN = False"
| "num_le a b = (\<not> num_lt b a)"

text \<open>
  A string is the list of its UTF-16 code units, each a natural number (below 65536 in
  JavaScript; nothing here depends on the bound). The relational operators compare
  strings lexicographically by code unit, which is the order of
  \<open>HOL-Library.List_Lexorder\<close>. \<open>str\<close> gives the string of an ASCII literal.
\<close>

type_synonym jsString = "nat list"

definition str :: "string \<Rightarrow> jsString" where
  "str s = map of_char s"

text \<open>
  \<open>toLowerCase\<close> and \<open>toUpperCase\<close> follow the Unicode case mappings. On a string of
  ASCII code units they are the mappings of the 26 letters, written out here. On any
  other string they are whatever the engine's Unicode tables give (one code unit may
  become several, and the result may depend on the neighbours): that part is the
  parameter \<open>platform\<close>, about which nothing is assumed.
\<close>

record platform =
  unicodeLower :: "jsString \<Rightarrow> jsString"
  unicodeUpper :: "jsString \<Rightarrow> jsString"

definition isAscii :: "jsString \<Rightarrow> bool" where
  "isAscii s = list_all (\<lambda>c. c < 128) s"

definition asciiLower :: "nat \<Rightarrow> nat" where
  "asciiLower c = (if 65 \<le> c \<and> c \<le> 90 then c + 32 else c)"

definition asciiUpper :: "nat \<Rightarrow> nat" where
  "asciiUpper c = (if 97 \<le> c \<and> c \<le> 122 then c - 32 else c)"

definition toLowerCase :: "platform \<Rightarrow> jsString \<Rightarrow> jsString" where
  "toLowerCase js s = (if isAscii s then map asciiLower s else unicodeLower js s)"

definition toUpperCase :: "platform \<Rightarrow> jsString \<Rightarrow> jsString" where
  "toUpperCase js s = (if isAscii s then map asciiUpper s else unicodeUpper js s)"

text \<open>The value returned by \<open>getFieldValue\<close>: \<open>string | number\<close>.\<close>

datatype fieldValue = NumV number | StrV jsString

text \<open>
  \<open>a < b\<close>, \<open>a > b\<close>, \<open>a <= b\<close>, \<open>a >= b\<close> on two field values. Both operands of every
  comparison in the code are read from the same field, so both are numbers or both are
  strings; a comparison of a string with a number (which JavaScript would decide after
  converting the string) does not arise and is given the value \<open>False\<close>.
\<close>

fun js_lt :: "fieldValue \<Rightarrow> fieldValue \<Rightarrow> bool" where
  "js_lt (NumV a) (NumV b) = num_lt a b"
| "js_lt (StrV a) (StrV b) = (a < b)"
| "js_lt a b = False"

fun js_le :: "fieldValue \<Rightarrow> fieldValue \<Rightarrow> bool" where
  "js_le (NumV a) (NumV b) = num_le a b"
| "js_le (StrV a) (StrV b) = (a \<le> b)"
| "js_le a b = False"

definition js_gt :: "fieldValue \<Rightarrow> fieldValue \<Rightarrow> bool" where
  "js_gt a b = js_lt b a"

definition js_ge :: "fieldValue \<Rightarrow> fieldValue \<Rightarrow> bool" where
  "js_ge a b = js_le b a"

section \<open>Record model (models/Student.ts)\<close>

text \<open>
  The interface \<open>IStudent\<close>, built in three steps so that the object types the code
  derives from it are record types too: \<open>studentFields\<close> has the six validated fields,
  \<open>studentData\<close> is \<open>Omit<IStudent, "id">\<close>, and \<open>student\<close> is \<open>IStudent\<close>. The field
  \<open>id\<close> is named \<open>student_id\<close>.
\<close>

record studentFields =
  nim :: jsString
  nama :: jsString
  email :: jsString
  jurusan :: jsString
  semester :: number
  ipk :: number

record studentData = studentFields +
  tanggalMasuk :: jsString

record student = studentData +
  student_id :: jsString

text \<open>
  An object with the properties of \<open>IStudent\<close> some of which may hold \<open>undefined\<close>
  (\<open>None\<close>). The type \<open>Partial<IStudent>\<close> of the payload of \<open>updateStudent\<close> admits a
  property that is present with the value \<open>undefined\<close>, and the object spread copies it,
  so such objects reach \<open>validateAllFields\<close> and the collection. \<open>fieldsOf\<close> is the
  object literal \<open>{ nim: data.nim, ..., ipk: data.ipk }\<close>, and \<open>objectOf\<close> a record seen
  as such an object.
\<close>

record fieldsObject =
  obj_nim :: "jsString option"
  obj_nama :: "jsString option"
  obj_email :: "jsString option"
  obj_jurusan :: "jsString option"
  obj_semester :: "number option"
  obj_ipk :: "number option"

record studentObject = fieldsObject +
  obj_tanggalMasuk :: "jsString option"
  obj_id :: "jsString option"

definition fieldsOf :: "'a studentFields_scheme \<Rightarrow> fieldsObject" where
  "fieldsOf d =
     \<lparr>obj_nim = Some (nim d), obj_nama = Some (nama d), obj_email = Some (email d),
      obj_jurusan = Some (jurusan d), obj_semester = Some (semester d),
      obj_ipk = Some (ipk d)\<rparr>"

definition objectOf :: "student \<Rightarrow> studentObject" where
  "objectOf s =
     \<lparr>obj_nim = Some (nim s), obj_nama = Some (nama s), obj_email = Some (email s),
      obj_jurusan = Some (jurusan s), obj_semester = Some (semester s),
      obj_ipk = Some (ipk s), obj_tanggalMasuk = Some (tanggalMasuk s),
      obj_id = Some (student_id s)\<rparr>"

section \<open>Sort engine (utils/sortAlgorithms.ts)\<close>

datatype sortField = Sort_nim | Sort_nama | Sort_jurusan | Sort_semester | Sort_ipk

datatype sortOrder = Asc | Desc

text \<open>
  \<open>SortResult\<close>: the sorted copy and the two counters. The complexity labels and the
  algorithm name are constant strings of each function and are left out.
\<close>

record sortResult =
  sortedData :: "student list"
  comparisons :: nat
  swaps :: nat

fun getFieldValue :: "platform \<Rightarrow> student \<Rightarrow> sortField \<Rightarrow> fieldValue" where
  "getFieldValue js s Sort_nim = StrV (toLowerCase js (nim s))"
| "getFieldValue js s Sort_nama = StrV (toLowerCase js (nama s))"
| "getFieldValue js s Sort_jurusan = StrV (toLowerCase js (jurusan s))"
| "getFieldValue js s Sort_semester = NumV (semester s)"
| "getFieldValue js s Sort_ipk = NumV (ipk s)"

subsection \<open>Bubble sort\<close>

text \<open>
  The loops work on the copy \<open>data\<close> of the input, with \<open>n = data.length\<close>; every index
  they read or write is below \<open>n\<close> by the loop guards. In \<open>i < n - 1\<close> the subtraction on
  \<open>nat\<close> gives \<open>0\<close> for \<open>n = 0\<close> where JavaScript gives \<open>-1\<close>: the guard is false in both.
  The inner loop state is \<open>(data, comparisons, swaps, swapped)\<close>, with the counters named \<open>comps\<close> and \<open>swps\<close>.
\<close>

function bubble_inner ::
  "platform \<Rightarrow> sortField \<Rightarrow> sortOrder \<Rightarrow> nat \<Rightarrow> nat \<Rightarrow> nat \<Rightarrow> student list \<times> nat \<times> nat \<times> bool
     \<Rightarrow> student list \<times> nat \<times> nat \<times> bool" where
  "bubble_inner js field order n i j (data, comps, swps, swapped) =
     (if j < n - i - 1 then
        (let a = getFieldValue js (data ! j) field;
             b = getFieldValue js (data ! (j + 1)) field;
             shouldSwap = (if order = Asc then js_gt a b else js_lt a b)
         in if shouldSwap
            then bubble_inner js field order n i (j + 1)
                   (data[j := data ! (j + 1), j + 1 := data ! j], comps + 1, swps + 1, True)
            else bubble_inner js field order n i (j + 1) (data, comps + 1, swps, swapped))
      else (data, comps, swps, swapped))"
  by pat_completeness auto
termination
  by (relation "measure (\<lambda>(js, field, order, n, i, j, st). n - i - 1 - j)") auto

text \<open>One iteration of the outer loop runs a pass and leaves the loop when it did not swap.\<close>

function bubble_outer ::
  "platform \<Rightarrow> sortField \<Rightarrow> sortOrder \<Rightarrow> nat \<Rightarrow> nat \<Rightarrow> student list \<times> nat \<times> nat
     \<Rightarrow> student list \<times> nat \<times> nat" where
  "bubble_outer js field order n i (data, comps, swps) =
     (if i < n - 1 then
        (case bubble_inner js field order n i 0 (data, comps, swps, False) of
           (data', comps', swps', swapped) \<Rightarrow>
             if \<not> swapped then (data', comps', swps')
             else bubble_outer js field order n (i + 1) (data', comps', swps'))
      else (data, comps, swps))"
  by pat_completeness auto
termination
  by (relation "measure (\<lambda>(js, field, order, n, i, st). n - 1 - i)") auto

definition bubbleSort :: "platform \<Rightarrow> student list \<Rightarrow> sortField \<Rightarrow> sortOrder \<Rightarrow> sortResult" where
  "bubbleSort js students field order =
     (case bubble_outer js field order (length students) 0 (students, 0, 0) of
        (data, comps, swps) \<Rightarrow>
          \<lparr>sortedData = data, comparisons = comps, swaps = swps\<rparr>)"

subsection \<open>Selection sort\<close>

text \<open>The inner loop state is \<open>(selectedIdx, comparisons)\<close>; it does not write \<open>data\<close>.\<close>

function selection_inner ::
  "platform \<Rightarrow> sortField \<Rightarrow> sortOrder \<Rightarrow> nat \<Rightarrow> student list \<Rightarrow> nat \<Rightarrow> nat \<times> nat \<Rightarrow> nat \<times> nat" where
  "selection_inner js field order n data j (selectedIdx, comps) =
     (if j < n then
        (let selected = getFieldValue js (data ! selectedIdx) field;
             current = getFieldValue js (data ! j) field;
             shouldSelect = (if order = Asc then js_lt current selected else js_gt current selected)
         in selection_inner js field order n data (j + 1)
              (if shouldSelect then j else selectedIdx, comps + 1))
      else (selectedIdx, comps))"
  by pat_completeness auto
termination
  by (relation "measure (\<lambda>(js, field, order, n, data, j, st). n - j)") auto

function selection_outer ::
  "platform \<Rightarrow> sortField \<Rightarrow> sortOrder \<Rightarrow> nat \<Rightarrow> nat \<Rightarrow> student list \<times> nat \<times> nat
     \<Rightarrow> student list \<times> nat \<times> nat" where
  "selection_outer js field order n i (data, comps, swps) =
     (if i < n - 1 then
        (case selection_inner js field order n data (i + 1) (i, comps) of
           (selectedIdx, comps') \<Rightarrow>
             if selectedIdx \<noteq> i
             then selection_outer js field order n (i + 1)
                    (data[i := data ! selectedIdx, selectedIdx := data ! i], comps', swps + 1)
             else selection_outer js field order n (i + 1) (data, comps', swps))
      else (data, comps, swps))"
  by pat_completeness auto
termination
  by (relation "measure (\<lambda>(js, field, order, n, i, st). n - 1 - i)") auto

definition selectionSort :: "platform \<Rightarrow> student list \<Rightarrow> sortField \<Rightarrow> sortOrder \<Rightarrow> sortResult" where
  "selectionSort js students field order =
     (case selection_outer js field order (length students) 0 (students, 0, 0) of
        (data, comps, swps) \<Rightarrow>
          \<lparr>sortedData = data, comparisons = comps, swaps = swps\<rparr>)"

subsection \<open>Insertion sort\<close>

text \<open>
  The index \<open>j\<close> of the \<open>while (j >= 0)\<close> loop reaches \<open>-1\<close>, so it is an \<open>int\<close>. The loop
  returns \<open>j\<close> with the state, for the write \<open>data[j + 1] = key\<close> after it.
\<close>

function insertion_inner ::
  "platform \<Rightarrow> sortField \<Rightarrow> sortOrder \<Rightarrow> fieldValue \<Rightarrow> int \<Rightarrow> student list \<times> nat \<times> nat
     \<Rightarrow> int \<times> student list \<times> nat \<times> nat" where
  "insertion_inner js field order keyValue j (data, comps, swps) =
     (if j \<ge> 0 then
        (let currentValue = getFieldValue js (data ! nat j) field;
             shouldShift = (if order = Asc then js_gt currentValue keyValue
                            else js_lt currentValue keyValue)
         in if shouldShift
            then insertion_inner js field order keyValue (j - 1)
                   (data[nat (j + 1) := data ! nat j], comps + 1, swps + 1)
            else (j, data, comps + 1, swps))
      else (j, data, comps, swps))"
  by pat_completeness auto
termination
  by (relation "measure (\<lambda>(js, field, order, keyValue, j, st). nat (j + 1))") auto

function insertion_outer ::
  "platform \<Rightarrow> sortField \<Rightarrow> sortOrder \<Rightarrow> nat \<Rightarrow> nat \<Rightarrow> student list \<times> nat \<times> nat
     \<Rightarrow> student list \<times> nat \<times> nat" where
  "insertion_outer js field order n i (data, comps, swps) =
     (if i < n then
        (let key = data ! i;
             keyValue = getFieldValue js key field
         in case insertion_inner js field order keyValue (int i - 1) (data, comps, swps) of
              (j, data', comps', swps') \<Rightarrow>
                insertion_outer js field order n (i + 1)
                  (data'[nat (j + 1) := key], comps', swps'))
      else (data, comps, swps))"
  by pat_completeness auto
termination
  by (relation "measure (\<lambda>(js, field, order, n, i, st). n - i)") auto

definition insertionSort :: "platform \<Rightarrow> student list \<Rightarrow> sortField \<Rightarrow> sortOrder \<Rightarrow> sortResult" where
  "insertionSort js students field order =
     (case insertion_outer js field order (length students) 1 (students, 0, 0) of
        (data, comps, swps) \<Rightarrow>
          \<lparr>sortedData = data, comparisons = comps, swaps = swps\<rparr>)"

subsection \<open>Shell sort\<close>

text \<open>
  The \<open>while (j >= gap)\<close> loop is only entered with \<open>gap > 0\<close> (the guard of the enclosing
  \<open>for\<close> loop); the conjunct \<open>0 < gap\<close> of the model's guard records that and makes the
  recursion well-founded.
\<close>

function shell_inner ::
  "platform \<Rightarrow> sortField \<Rightarrow> sortOrder \<Rightarrow> nat \<Rightarrow> fieldValue \<Rightarrow> nat \<Rightarrow> student list \<times> nat \<times> nat
     \<Rightarrow> nat \<times> student list \<times> nat \<times> nat" where
  "shell_inner js field order gap tempValue j (data, comps, swps) =
     (if 0 < gap \<and> j \<ge> gap then
        (let compareValue = getFieldValue js (data ! (j - gap)) field;
             shouldShift = (if order = Asc then js_gt compareValue tempValue
                            else js_lt compareValue tempValue)
         in if shouldShift
            then shell_inner js field order gap tempValue (j - gap)
                   (data[j := data ! (j - gap)], comps + 1, swps + 1)
            else (j, data, comps + 1, swps))
      else (j, data, comps, swps))"
  by pat_completeness auto
termination
  by (relation "measure (\<lambda>(js, field, order, gap, tempValue, j, st). j)") auto

function shell_pass ::
  "platform \<Rightarrow> sortField \<Rightarrow> sortOrder \<Rightarrow> nat \<Rightarrow> nat \<Rightarrow> nat \<Rightarrow> student list \<times> nat \<times> nat
     \<Rightarrow> student list \<times> nat \<times> nat" where
  "shell_pass js field order n gap i (data, comps, swps) =
     (if i < n then
        (let temp = data ! i;
             tempValue = getFieldValue js temp field
         in case shell_inner js field order gap tempValue i (data, comps, swps) of
              (j, data', comps', swps') \<Rightarrow>
                shell_pass js field order n gap (i + 1) (data'[j := temp], comps', swps'))
      else (data, comps, swps))"
  by pat_completeness auto
termination
  by (relation "measure (\<lambda>(js, field, order, n, gap, i, st). n - i)") auto

function shell_gaps ::
  "platform \<Rightarrow> sortField \<Rightarrow> sortOrder \<Rightarrow> nat \<Rightarrow> nat \<Rightarrow> student list \<times> nat \<times> nat
     \<Rightarrow> student list \<times> nat \<times> nat" where
  "shell_gaps js field order n gap st =
     (if gap > 0 then shell_gaps js field order n (gap div 2) (shell_pass js field order n gap gap st)
      else st)"
  by pat_completeness auto
termination
  by (relation "measure (\<lambda>(js, field, order, n, gap, st). gap)") auto

definition shellSort :: "platform \<Rightarrow> student list \<Rightarrow> sortField \<Rightarrow> sortOrder \<Rightarrow> sortResult" where
  "shellSort js students field order =
     (case shell_gaps js field order (length students) (length students div 2) (students, 0, 0) of
        (data, comps, swps) \<Rightarrow>
          \<lparr>sortedData = data, comparisons = comps, swaps = swps\<rparr>)"

subsection \<open>Merge sort\<close>

text \<open>
  The counters \<open>comparisons\<close> and \<open>swaps\<close> of the enclosing function, which \<open>merge\<close>
  increments, are passed through \<open>merge\<close> and \<open>sort\<close>. The state of the loop in \<open>merge\<close> is
  \<open>(leftIdx, rightIdx, result, comparisons, swaps)\<close>.
\<close>

function merge_loop ::
  "platform \<Rightarrow> sortField \<Rightarrow> sortOrder \<Rightarrow> student list \<Rightarrow> student list
     \<Rightarrow> nat \<times> nat \<times> student list \<times> nat \<times> nat \<Rightarrow> nat \<times> nat \<times> student list \<times> nat \<times> nat" where
  "merge_loop js field order left right (leftIdx, rightIdx, result, comps, swps) =
     (if leftIdx < length left \<and> rightIdx < length right then
        (let leftValue = getFieldValue js (left ! leftIdx) field;
             rightValue = getFieldValue js (right ! rightIdx) field;
             leftFirst = (if order = Asc then js_le leftValue rightValue
                          else js_ge leftValue rightValue)
         in if leftFirst
            then merge_loop js field order left right
                   (leftIdx + 1, rightIdx, result @ [left ! leftIdx], comps + 1, swps + 1)
            else merge_loop js field order left right
                   (leftIdx, rightIdx + 1, result @ [right ! rightIdx], comps + 1, swps + 1))
      else (leftIdx, rightIdx, result, comps, swps))"
  by pat_completeness auto
termination
  by (relation "measure (\<lambda>(js, field, order, left, right, leftIdx, rightIdx, st).
        (length left - leftIdx) + (length right - rightIdx))") auto

definition mergeSort_merge ::
  "platform \<Rightarrow> sortField \<Rightarrow> sortOrder \<Rightarrow> student list \<Rightarrow> student list \<Rightarrow> nat \<times> nat
     \<Rightarrow> student list \<times> nat \<times> nat" where
  "mergeSort_merge js field order left right counters =
     (case merge_loop js field order left right (0, 0, [], fst counters, snd counters) of
        (leftIdx, rightIdx, result, comps, swps) \<Rightarrow>
          (result @ drop leftIdx left @ drop rightIdx right, comps, swps))"

function mergeSort_sort ::
  "platform \<Rightarrow> sortField \<Rightarrow> sortOrder \<Rightarrow> student list \<Rightarrow> nat \<times> nat \<Rightarrow> student list \<times> nat \<times> nat" where
  "mergeSort_sort js field order arr counters =
     (if length arr \<le> 1 then (arr, fst counters, snd counters)
      else (let mid = length arr div 2
            in case mergeSort_sort js field order (take mid arr) counters of
                 (left, comparisons1, swaps1) \<Rightarrow>
                   (case mergeSort_sort js field order (drop mid arr) (comparisons1, swaps1) of
                      (right, comparisons2, swaps2) \<Rightarrow>
                        mergeSort_merge js field order left right (comparisons2, swaps2))))"
  by pat_completeness auto
termination
  by (relation "measure (\<lambda>(js, field, order, arr, counters). length arr)") auto

definition mergeSort :: "platform \<Rightarrow> student list \<Rightarrow> sortField \<Rightarrow> sortOrder \<Rightarrow> sortResult" where
  "mergeSort js students field order =
     (case mergeSort_sort js field order students (0, 0) of
        (result, comps, swps) \<Rightarrow>
          \<lparr>sortedData = result, comparisons = comps, swaps = swps\<rparr>)"
section \<open>Search engine (utils/searchAlgorithms.ts)\<close>

datatype searchField = Search_nim | Search_nama | Search_jurusan | Search_email

text \<open>
  \<open>SearchResult\<close> without its two constant labels. A field that no record of the
  collection has been found for is \<open>null\<close> in the code and \<open>None\<close> here.
\<close>

record searchResult =
  found :: bool
  index :: int
  student :: "student option"
  comparisons :: nat

text \<open>The property read \<open>students[i][field]\<close>; all four search fields are strings.\<close>

fun fieldOf :: "student \<Rightarrow> searchField \<Rightarrow> jsString" where
  "fieldOf s Search_nim = nim s"
| "fieldOf s Search_nama = nama s"
| "fieldOf s Search_jurusan = jurusan s"
| "fieldOf s Search_email = email s"

text \<open>\<open>s.includes(t)\<close> (named \<open>str_includes\<close>): \<open>t\<close> occurs in \<open>s\<close> as a contiguous substring.\<close>

fun str_includes :: "jsString \<Rightarrow> jsString \<Rightarrow> bool" where
  "str_includes [] t = (t = [])"
| "str_includes (c # s) t = (take (length t) (c # s) = t \<or> str_includes s t)"

function linearSearch_loop ::
  "platform \<Rightarrow> student list \<Rightarrow> jsString \<Rightarrow> searchField \<Rightarrow> nat \<Rightarrow> nat \<Rightarrow> searchResult" where
  "linearSearch_loop js students searchValue field i comps =
     (if i < length students then
        (let fieldValue = toLowerCase js (fieldOf (students ! i) field)
         in if str_includes fieldValue (toLowerCase js searchValue)
            then \<lparr>found = True, index = int i, student = Some (students ! i),
                  comparisons = comps + 1\<rparr>
            else linearSearch_loop js students searchValue field (i + 1) (comps + 1))
      else \<lparr>found = False, index = - 1, student = None, comparisons = comps\<rparr>)"
  by pat_completeness auto
termination
  by (relation "measure (\<lambda>(js, students, searchValue, field, i, comps). length students - i)")
    auto

definition linearSearch ::
  "platform \<Rightarrow> student list \<Rightarrow> jsString \<Rightarrow> searchField \<Rightarrow> searchResult" where
  "linearSearch js students searchValue field =
     linearSearch_loop js students searchValue field 0 0"

text \<open>
  In \<open>binarySearch\<close> the bounds are integers (\<open>right\<close> starts at \<open>-1\<close> on the empty
  collection). Reading \<open>students[mid]\<close> outside the array gives \<open>undefined\<close>, and the
  property read on it throws a \<open>TypeError\<close> that the function does not catch: that is
  the result \<open>Inl TypeError\<close>.
\<close>

datatype error = TypeError

function binarySearch_loop ::
  "platform \<Rightarrow> student list \<Rightarrow> jsString \<Rightarrow> searchField \<Rightarrow> int \<Rightarrow> int \<Rightarrow> nat
     \<Rightarrow> error + searchResult" where
  "binarySearch_loop js students searchValue field left right comps =
     (if left \<le> right then
        (let mid = (left + right) div 2
         in if 0 \<le> mid \<and> mid < int (length students) then
              (let fieldValue = toLowerCase js (fieldOf (students ! nat mid) field);
                   search = toLowerCase js searchValue
               in if fieldValue = search
                  then Inr \<lparr>found = True, index = mid, student = Some (students ! nat mid),
                           comparisons = comps + 1\<rparr>
                  else if fieldValue < search
                       then binarySearch_loop js students searchValue field (mid + 1) right
                              (comps + 1)
                       else binarySearch_loop js students searchValue field left (mid - 1)
                              (comps + 1))
            else Inl TypeError)
      else Inr \<lparr>found = False, index = - 1, student = None, comparisons = comps\<rparr>)"
  by pat_completeness auto
termination
  by (relation "measure (\<lambda>(js, students, searchValue, field, left, right, comps).
        nat (right - left + 1))") auto

definition binarySearch ::
  "platform \<Rightarrow> student list \<Rightarrow> jsString \<Rightarrow> searchField \<Rightarrow> error + searchResult" where
  "binarySearch js students searchValue field =
     binarySearch_loop js students searchValue field 0 (int (length students) - 1) 0"

section \<open>Validation engine (utils/validation.ts)\<close>

record validationResult =
  isValid :: bool
  message :: jsString

text \<open>
  The character classes of the patterns. \<open>\s\<close> in a pattern and \<open>trim\<close> take as white
  space the same code units: tab to carriage return, space, no-break space, U+1680,
  U+2000 to U+200A, the line and paragraph separators, U+202F, U+205F, U+3000 and the
  byte order mark.
\<close>

definition inRange :: "nat \<Rightarrow> nat \<Rightarrow> nat \<Rightarrow> bool" where
  "inRange lo hi c = (lo \<le> c \<and> c \<le> hi)"

definition isWhiteSpace :: "nat \<Rightarrow> bool" where
  "isWhiteSpace c =
     (inRange 9 13 c \<or> c = 32 \<or> c = 160 \<or> c = 5760 \<or> inRange 8192 8202 c \<or> c = 8232
      \<or> c = 8233 \<or> c = 8239 \<or> c = 8287 \<or> c = 12288 \<or> c = 65279)"

definition isLetter :: "nat \<Rightarrow> bool" where
  "isLetter c = (inRange 97 122 c \<or> inRange 65 90 c)"

definition isDigit :: "nat \<Rightarrow> bool" where
  "isDigit c = inRange 48 57 c"

definition trim :: "jsString \<Rightarrow> jsString" where
  "trim s = rev (dropWhile isWhiteSpace (rev (dropWhile isWhiteSpace s)))"

text \<open>\<open>REGEX_PATTERNS.NAMA.test\<close>: \<open>/^[a-zA-Z\s]{2,100}$/\<close>.\<close>

definition regex_NAMA :: "jsString \<Rightarrow> bool" where
  "regex_NAMA s =
     (2 \<le> length s \<and> length s \<le> 100 \<and> list_all (\<lambda>c. isLetter c \<or> isWhiteSpace c) s)"

text \<open>\<open>REGEX_PATTERNS.JURUSAN.test\<close>: \<open>/^[a-zA-Z\s]{2,50}$/\<close>.\<close>

definition regex_JURUSAN :: "jsString \<Rightarrow> bool" where
  "regex_JURUSAN s =
     (2 \<le> length s \<and> length s \<le> 50 \<and> list_all (\<lambda>c. isLetter c \<or> isWhiteSpace c) s)"

text \<open>
  \<open>REGEX_PATTERNS.EMAIL.test\<close>: \<open>/^[a-zA-Z0-9._%+-]+@[a-zA-Z0-9.-]+\.[a-zA-Z]{2,}$/\<close>.
  The pattern matches when the string splits at some \<open>@\<close> (position \<open>i\<close>) and some later
  \<open>.\<close> (position \<open>j\<close>) into a local part, a domain and a top-level part of the three
  classes. The code units of \<open>. _ % + - @\<close> are 46, 95, 37, 43, 45 and 64.
\<close>

definition emailLocalChar :: "nat \<Rightarrow> bool" where
  "emailLocalChar c =
     (isLetter c \<or> isDigit c \<or> c = 46 \<or> c = 95 \<or> c = 37 \<or> c = 43 \<or> c = 45)"

definition emailDomainChar :: "nat \<Rightarrow> bool" where
  "emailDomainChar c = (isLetter c \<or> isDigit c \<or> c = 46 \<or> c = 45)"

definition emailSplit :: "jsString \<Rightarrow> nat \<Rightarrow> nat \<Rightarrow> bool" where
  "emailSplit s i j =
     (let localPart = take i s;
          domainPart = take (j - (i + 1)) (drop (i + 1) s);
          tld = drop (j + 1) s
      in i < j \<and> s ! i = 64 \<and> s ! j = 46
         \<and> localPart \<noteq> [] \<and> list_all emailLocalChar localPart
         \<and> domainPart \<noteq> [] \<and> list_all emailDomainChar domainPart
         \<and> 2 \<le> length tld \<and> list_all isLetter tld)"

definition regex_EMAIL :: "jsString \<Rightarrow> bool" where
  "regex_EMAIL s =
     list_ex (\<lambda>i. list_ex (\<lambda>j. emailSplit s i j) [0..<length s]) [0..<length s]"

text \<open>
  The validators. Their argument may be \<open>undefined\<close> (\<open>None\<close>) when they are called from
  \<open>updateStudent\<close>. \<open>emptyText\<close> is the test \<open>!x || x.trim() === ""\<close>: \<open>!x\<close> is true of
  \<open>undefined\<close> and of the empty string. \<open>isNaN(undefined)\<close> is true and
  \<open>Number.isInteger(undefined)\<close> is false. The \<open>try\<close> blocks call only these
  primitives, which do not throw on a string, a number or \<open>undefined\<close>, so the \<open>catch\<close>
  branches are not reached.
\<close>

fun emptyText :: "jsString option \<Rightarrow> bool" where
  "emptyText None = True"
| "emptyText (Some s) = (s = [] \<or> trim s = [])"

definition validateNIM :: "jsString option \<Rightarrow> validationResult" where
  "validateNIM nim' =
     (if emptyText nim'
      then \<lparr>isValid = False, message = str ''NIM tidak boleh kosong''\<rparr>
      else if length (the nim') > 50
      then \<lparr>isValid = False, message = str ''NIM maksimal 50 karakter''\<rparr>
      else \<lparr>isValid = True, message = str ''NIM valid''\<rparr>)"

definition validateNama :: "jsString option \<Rightarrow> validationResult" where
  "validateNama nama' =
     (if emptyText nama'
      then \<lparr>isValid = False, message = str ''Nama tidak boleh kosong''\<rparr>
      else if length (the nama') < 2
      then \<lparr>isValid = False, message = str ''Nama minimal 2 karakter''\<rparr>
      else if length (the nama') > 100
      then \<lparr>isValid = False, message = str ''Nama maksimal 100 karakter''\<rparr>
      else (let valid = regex_NAMA (the nama')
            in \<lparr>isValid = valid,
                message = (if valid then str ''Nama valid''
                           else str ''Nama hanya boleh mengandung huruf dan spasi'')\<rparr>))"

definition validateEmail :: "jsString option \<Rightarrow> validationResult" where
  "validateEmail email' =
     (if emptyText email'
      then \<lparr>isValid = False, message = str ''Email tidak boleh kosong''\<rparr>
      else (let valid = regex_EMAIL (the email')
            in \<lparr>isValid = valid,
                message = (if valid then str ''Email valid''
                           else str ''Format email tidak valid. Contoh: nama@domain.com'')\<rparr>))"

fun isNaN :: "number option \<Rightarrow> bool" where
  "isNaN None = True"
| "isNaN (Some x) = (x = NaN)"

fun isInteger :: "number option \<Rightarrow> bool" where
  "isInteger (Some (Finite q)) = (q = of_int \<lfloor>q\<rfloor>)"
| "isInteger x = False"

definition validateIPK :: "number option \<Rightarrow> validationResult" where
  "validateIPK ipk' =
     (if isNaN ipk'
      then \<lparr>isValid = False, message = str ''IPK harus berupa angka''\<rparr>
      else if num_lt (the ipk') (Finite 0) \<or> num_lt (Finite 4) (the ipk')
      then \<lparr>isValid = False, message = str ''IPK harus antara 0.00 - 4.00''\<rparr>
      else \<lparr>isValid = True, message = str ''IPK valid''\<rparr>)"

definition validateSemester :: "number option \<Rightarrow> validationResult" where
  "validateSemester semester' =
     (if \<not> isInteger semester'
      then \<lparr>isValid = False, message = str ''Semester harus berupa bilangan bulat''\<rparr>
      else if num_lt (the semester') (Finite 1) \<or> num_lt (Finite 14) (the semester')
      then \<lparr>isValid = False, message = str ''Semester harus antara 1-14''\<rparr>
      else \<lparr>isValid = True, message = str ''Semester valid''\<rparr>)"

definition validateJurusan :: "jsString option \<Rightarrow> validationResult" where
  "validateJurusan jurusan' =
     (if emptyText jurusan'
      then \<lparr>isValid = False, message = str ''Jurusan tidak boleh kosong''\<rparr>
      else if length (the jurusan') < 2
      then \<lparr>isValid = False, message = str ''Jurusan minimal 2 karakter''\<rparr>
      else (let valid = regex_JURUSAN (the jurusan')
            in \<lparr>isValid = valid,
                message = (if valid then str ''Jurusan valid''
                           else str ''Jurusan hanya boleh mengandung huruf dan spasi'')\<rparr>))"

text \<open>
  The result of \<open>validateAllFields\<close>. The object \<open>errors\<close> is the list of its properties
  in insertion order (\<open>Object.values(errors)[0]\<close> reads the first); each key is written
  at most once. \<open>allValid\<close> is the property \<open>isValid\<close> of the result.
\<close>

record fieldsValidation =
  allValid :: bool
  errors :: "(jsString \<times> jsString) list"

definition validateAllFields :: "'a fieldsObject_scheme \<Rightarrow> fieldsValidation" where
  "validateAllFields data =
     (let errs0 = [];
          nimResult = validateNIM (obj_nim data);
          errs1 = (if \<not> isValid nimResult then errs0 @ [(str ''nim'', message nimResult)]
                   else errs0);
          namaResult = validateNama (obj_nama data);
          errs2 = (if \<not> isValid namaResult then errs1 @ [(str ''nama'', message namaResult)]
                   else errs1);
          emailResult = validateEmail (obj_email data);
          errs3 = (if \<not> isValid emailResult then errs2 @ [(str ''email'', message emailResult)]
                   else errs2);
          jurusanResult = validateJurusan (obj_jurusan data);
          errs4 = (if \<not> isValid jurusanResult
                   then errs3 @ [(str ''jurusan'', message jurusanResult)] else errs3);
          semesterResult = validateSemester (obj_semester data);
          errs5 = (if \<not> isValid semesterResult
                   then errs4 @ [(str ''semester'', message semesterResult)] else errs4);
          ipkResult = validateIPK (obj_ipk data);
          errs6 = (if \<not> isValid ipkResult then errs5 @ [(str ''ipk'', message ipkResult)]
                   else errs5)
      in \<lparr>allValid = (length (map fst errs6) = 0), errors = errs6\<rparr>)"

section \<open>Persistence gateway (utils/fileIO.ts)\<close>

text \<open>
  The JavaScript values that the gateway serialises and parses: \<open>null\<close>, booleans,
  numbers, strings, arrays, and plain objects as the list of their properties in
  insertion order (no property name used here is an array index, which would be
  enumerated first). \<open>valueOfStudent\<close> is a record as such a value.
\<close>

datatype jsValue =
  VNull | VBool bool | VNumber number | VString jsString | VArray "jsValue list"
  | VObject "(jsString \<times> jsValue) list"

definition valueOfStudent :: "student \<Rightarrow> jsValue" where
  "valueOfStudent s =
     VObject [(str ''id'', VString (student_id s)), (str ''nim'', VString (nim s)),
              (str ''nama'', VString (nama s)), (str ''email'', VString (email s)),
              (str ''jurusan'', VString (jurusan s)), (str ''semester'', VNumber (semester s)),
              (str ''ipk'', VNumber (ipk s)), (str ''tanggalMasuk'', VString (tanggalMasuk s))]"

text \<open>
  \<open>parsed v\<close> is \<open>JSON.parse(JSON.stringify(v))\<close>: the value that the JSON text of \<open>v\<close>
  denotes. \<open>JSON.stringify\<close> writes a finite number as itself and \<open>NaN\<close> and the
  infinities as \<open>null\<close>; strings, booleans, \<open>null\<close> and the structure are kept.
\<close>

fun parsed :: "jsValue \<Rightarrow> jsValue" where
  "parsed (VNumber x) = (case x of Finite q \<Rightarrow> VNumber (Finite q) | _ \<Rightarrow> VNull)"
| "parsed (VArray vs) = VArray (map parsed vs)"
| "parsed (VObject kvs) = VObject (map (\<lambda>(k, v). (k, parsed v)) kvs)"
| "parsed v = v"

text \<open>
  An item of \<open>localStorage\<close> is a string. A string that is a JSON text is represented by
  the value it denotes (\<open>JSON.parse\<close> returns it), any other string by itself
  (\<open>JSON.parse\<close> throws a \<open>SyntaxError\<close>). Only the empty string is falsy, and it is not
  a JSON text.
\<close>

datatype item = JsonText jsValue | OtherText jsString

definition JSON_stringify :: "jsValue \<Rightarrow> item" where
  "JSON_stringify v = JsonText (parsed v)"

fun truthyText :: "item \<Rightarrow> bool" where
  "truthyText (JsonText d) = True"
| "truthyText (OtherText s) = (s \<noteq> [])"

text \<open>
  \<open>localStorage\<close> is the map from keys to items: \<open>getItem\<close> is the lookup and
  \<open>removeItem\<close> an update. \<open>setItem\<close> throws a \<open>QuotaExceededError\<close> when the browser
  refuses the write; which writes it refuses is the parameter \<open>accepts\<close> (of the store
  before the write, the key and the item). \<open>setItem\<close> returns the store written, or
  \<open>None\<close> when it throws.
\<close>

type_synonym localStorage = "jsString \<rightharpoonup> item"

type_synonym writePolicy = "localStorage \<Rightarrow> jsString \<Rightarrow> item \<Rightarrow> bool"

definition setItem ::
  "writePolicy \<Rightarrow> localStorage \<Rightarrow> jsString \<Rightarrow> item \<Rightarrow> localStorage option" where
  "setItem accepts store k v = (if accepts store k v then Some (store(k \<mapsto> v)) else None)"

definition STORAGE_KEY :: jsString where
  "STORAGE_KEY = str ''student_data''"

definition BACKUP_KEY :: jsString where
  "BACKUP_KEY = str ''student_data_backup''"

text \<open>
  The property read \<open>parsedData.data\<close> on a parsed value: \<open>undefined\<close> (\<open>None\<close>) on
  anything but an object that has the key; of two properties with the same key in a
  JSON text, \<open>JSON.parse\<close> keeps the later. On \<open>null\<close> the read throws; the callers
  handle that case before calling \<open>jsonProperty\<close>.
\<close>

fun jsonProperty :: "jsValue \<Rightarrow> jsString \<Rightarrow> jsValue option" where
  "jsonProperty (VObject kvs) k = map_of (rev kvs) k"
| "jsonProperty d k = None"

text \<open>
  \<open>FileIOResult\<close>: \<open>data\<close> and \<open>timestamp\<close> are optional; after \<open>JSON.parse\<close> they are
  whatever the document holds, so both are JavaScript values here.
\<close>

record fileIOResult =
  success :: bool
  message :: jsString
  data :: "jsValue option"
  timestamp :: "jsValue option"

text \<open>The decimal form of \<open>students.length\<close> in the message of \<open>saveToFile\<close>.\<close>

fun decimal :: "nat \<Rightarrow> jsString" where
  "decimal n = (if n < 10 then [48 + n] else decimal (n div 10) @ [48 + n mod 10])"

text \<open>
  \<open>saveToFile\<close>; \<open>now\<close> is the value of \<open>new Date().toISOString()\<close>. Each function
  returns its result and the store it leaves. A \<open>setItem\<close> that throws ends the \<open>try\<close>
  block: the writes made before it stay, and the \<open>catch\<close> branch for
  \<open>QuotaExceededError\<close> gives the result.
\<close>

definition saveToFile ::
  "writePolicy \<Rightarrow> jsString \<Rightarrow> student list \<Rightarrow> localStorage \<Rightarrow> fileIOResult \<times> localStorage"
  where
  "saveToFile accepts now students store =
     (let dataToSave =
            VObject [(str ''version'', VString (str ''1.0'')), (str ''timestamp'', VString now),
                     (str ''count'', VNumber (Finite (of_nat (length students)))),
                     (str ''data'', VArray (map valueOfStudent students))];
          full = \<lparr>success = False,
                   message = str ''Penyimpanan penuh. Hapus beberapa data dan coba lagi.'',
                   data = None, timestamp = None\<rparr>;
          afterBackup = (case store STORAGE_KEY of
                           None \<Rightarrow> Some store
                         | Some existingData \<Rightarrow>
                             if truthyText existingData
                             then setItem accepts store BACKUP_KEY existingData
                             else Some store)
      in case afterBackup of
           None \<Rightarrow> (full, store)
         | Some store1 \<Rightarrow>
             (case setItem accepts store1 STORAGE_KEY (JSON_stringify dataToSave) of
                None \<Rightarrow> (full, store1)
              | Some store2 \<Rightarrow>
                  (\<lparr>success = True,
                    message = str ''Data berhasil disimpan. '' @ decimal (length students)
                              @ str '' mahasiswa tersimpan.'',
                    data = None, timestamp = Some (VString now)\<rparr>, store2)))"

definition restoreFromBackup ::
  "writePolicy \<Rightarrow> localStorage \<Rightarrow> fileIOResult \<times> localStorage" where
  "restoreFromBackup accepts store =
     (let noBackup = \<lparr>success = False, message = str ''Tidak ada backup yang tersedia.'',
                       data = None, timestamp = None\<rparr>;
          failed = \<lparr>success = False, message = str ''Gagal memulihkan data dari backup.'',
                     data = None, timestamp = None\<rparr>
      in case store BACKUP_KEY of
           None \<Rightarrow> (noBackup, store)
         | Some backupData \<Rightarrow>
             if \<not> truthyText backupData then (noBackup, store)
             else (case setItem accepts store STORAGE_KEY backupData of
                     None \<Rightarrow> (failed, store)
                   | Some store1 \<Rightarrow>
                       (case backupData of
                          OtherText s \<Rightarrow> (failed, store1)
                        | JsonText VNull \<Rightarrow> (failed, store1)
                        | JsonText parsedData \<Rightarrow>
                            (\<lparr>success = True,
                              message = str ''Data berhasil dipulihkan dari backup.'',
                              data = jsonProperty parsedData (str ''data''),
                              timestamp = jsonProperty parsedData (str ''timestamp'')\<rparr>,
                             store1))))"

definition clearAllData :: "writePolicy \<Rightarrow> localStorage \<Rightarrow> fileIOResult \<times> localStorage" where
  "clearAllData accepts store =
     (let afterBackup = (case store STORAGE_KEY of
                           None \<Rightarrow> Some store
                         | Some existingData \<Rightarrow>
                             if truthyText existingData
                             then setItem accepts store BACKUP_KEY existingData
                             else Some store)
      in case afterBackup of
           None \<Rightarrow>
             (\<lparr>success = False, message = str ''Gagal menghapus data.'',
               data = None, timestamp = None\<rparr>, store)
         | Some store1 \<Rightarrow>
             (\<lparr>success = True,
               message = str ''Semua data berhasil dihapus. Backup tersedia untuk pemulihan.'',
               data = None, timestamp = None\<rparr>, store1(STORAGE_KEY := None)))"

section \<open>Collection manager (hooks/useStudentManager.ts)\<close>

text \<open>
  The state of the hook is the array \<open>students\<close>. An operation takes it and returns
  \<open>Inr\<close> of the array it sets (the call returns \<open>true\<close>) or \<open>Inl\<close> of the message of the
  \<open>Error\<close> it throws, which its own \<open>catch\<close> shows as a toast before returning \<open>false\<close>;
  the state is then unchanged.
\<close>

text \<open>\<open>Object.values(validation.errors)[0]\<close>; on no error the message is \<open>undefined\<close>.\<close>

fun firstError :: "(jsString \<times> jsString) list \<Rightarrow> jsString" where
  "firstError [] = []"
| "firstError ((k, m) # es) = m"

text \<open>\<open>addStudent\<close>; \<open>uuid\<close> is the value of \<open>crypto.randomUUID()\<close>.\<close>

definition addStudent ::
  "platform \<Rightarrow> student list \<Rightarrow> jsString \<Rightarrow> studentData \<Rightarrow> jsString + student list" where
  "addStudent js students uuid d =
     (let validation = validateAllFields (fieldsOf d)
      in if \<not> allValid validation then Inl (firstError (errors validation))
         else (let nimExists =
                     list_ex (\<lambda>s. toLowerCase js (nim s) = toLowerCase js (nim d)) students
               in if nimExists then Inl (str ''NIM sudah terdaftar'')
                  else (let newStudent =
                              \<lparr>nim = toUpperCase js (nim d), nama = nama d, email = email d,
                               jurusan = jurusan d, semester = semester d, ipk = ipk d,
                               tanggalMasuk = tanggalMasuk d, student_id = uuid\<rparr>
                        in Inr (students @ [newStudent]))))"

text \<open>
  A property of the payload \<open>data: Partial<IStudent>\<close>: absent, present with the value
  \<open>undefined\<close>, or present with a value of its type (\<open>Partial\<close> admits all three).
  \<open>truthy\<close> is the test \<open>data.nim || ...\<close> (a string that is not empty), \<open>defined\<close> the
  test \<open>data.semester !== undefined\<close>, and \<open>over x m\<close> what the spread
  \<open>{ ...s, ...data }\<close> leaves in a property that holds \<open>x\<close> in \<open>s\<close> and is \<open>m\<close> in \<open>data\<close>.
\<close>

datatype 'a member = Absent | Undefined | Given 'a

record studentPatch =
  patch_id :: "jsString member"
  patch_nim :: "jsString member"
  patch_nama :: "jsString member"
  patch_email :: "jsString member"
  patch_jurusan :: "jsString member"
  patch_semester :: "number member"
  patch_ipk :: "number member"
  patch_tanggalMasuk :: "jsString member"

fun truthy :: "jsString member \<Rightarrow> bool" where
  "truthy (Given s) = (s \<noteq> [])"
| "truthy m = False"

fun defined :: "'a member \<Rightarrow> bool" where
  "defined (Given v) = True"
| "defined m = False"

fun over :: "'a \<Rightarrow> 'a member \<Rightarrow> 'a option" where
  "over x Absent = Some x"
| "over x Undefined = None"
| "over x (Given v) = Some v"

definition spread :: "student \<Rightarrow> studentPatch \<Rightarrow> studentObject" where
  "spread s p =
     \<lparr>obj_nim = over (nim s) (patch_nim p), obj_nama = over (nama s) (patch_nama p),
      obj_email = over (email s) (patch_email p),
      obj_jurusan = over (jurusan s) (patch_jurusan p),
      obj_semester = over (semester s) (patch_semester p),
      obj_ipk = over (ipk s) (patch_ipk p),
      obj_tanggalMasuk = over (tanggalMasuk s) (patch_tanggalMasuk p),
      obj_id = over (student_id s) (patch_id p)\<rparr>"

text \<open>
  The checks of \<open>updateStudent\<close>, inside \<open>if (data.nim || ... || data.ipk !== undefined)\<close>:
  the message of the error thrown, if any.
\<close>

definition updateChecks ::
  "platform \<Rightarrow> student list \<Rightarrow> jsString \<Rightarrow> studentPatch \<Rightarrow> jsString option" where
  "updateChecks js students id' p =
     (if truthy (patch_nim p) \<or> truthy (patch_nama p) \<or> truthy (patch_email p)
         \<or> truthy (patch_jurusan p) \<or> defined (patch_semester p) \<or> defined (patch_ipk p)
      then (case find (\<lambda>s. student_id s = id') students of
              None \<Rightarrow> Some (str ''Mahasiswa tidak ditemukan'')
            | Some currentStudent \<Rightarrow>
                (let updatedData = spread currentStudent p;
                     validation = validateAllFields updatedData
                 in if \<not> allValid validation then Some (firstError (errors validation))
                    else (case patch_nim p of
                            Given newNim \<Rightarrow>
                              if newNim \<noteq> [] \<and> newNim \<noteq> nim currentStudent
                                 \<and> list_ex (\<lambda>s. student_id s \<noteq> id'
                                       \<and> toLowerCase js (nim s) = toLowerCase js newNim)
                                      students
                              then Some (str ''NIM sudah terdaftar'')
                              else None
                          | _ \<Rightarrow> None)))
      else None)"

text \<open>
  The array that \<open>updateStudent\<close> sets: the target is replaced by
  \<open>{ ...s, ...data, nim: data.nim ? data.nim.toUpperCase() : s.nim }\<close>, every other
  record is kept.
\<close>

definition updateStudent ::
  "platform \<Rightarrow> student list \<Rightarrow> jsString \<Rightarrow> studentPatch \<Rightarrow> jsString + studentObject list"
  where
  "updateStudent js students id' p =
     (case updateChecks js students id' p of
        Some err \<Rightarrow> Inl err
      | None \<Rightarrow>
          Inr (map (\<lambda>s. if student_id s = id'
                        then (spread s p)
                               \<lparr>obj_nim := Some (case patch_nim p of
                                                   Given newNim \<Rightarrow>
                                                     if newNim \<noteq> [] then toUpperCase js newNim
                                                     else nim s
                                                 | _ \<Rightarrow> nim s)\<rparr>
                        else objectOf s) students))"

section \<open>Example values\<close>

text \<open>
  Concrete values at which the theorems below are instantiated. \<open>plainPlatform\<close> is a
  platform that leaves the strings with a code unit outside ASCII as they are; the
  examples hold ASCII strings only, for which no platform is consulted.
\<close>

definition plainPlatform :: platform where
  "plainPlatform = \<lparr>unicodeLower = (\<lambda>s. s), unicodeUpper = (\<lambda>s. s)\<rparr>"

definition exampleData :: studentData where
  "exampleData =
     \<lparr>nim = str ''if123456'', nama = str ''Budi Santoso'', email = str ''budi@kampus.ac.id'',
      jurusan = str ''Teknik Informatika'', semester = Finite 3, ipk = Finite (7 / 2),
      tanggalMasuk = str ''2023-09-01''\<rparr>"

definition exampleStudent :: student where
  "exampleStudent =
     \<lparr>nim = str ''IF123456'', nama = str ''Budi Santoso'', email = str ''budi@kampus.ac.id'',
      jurusan = str ''Teknik Informatika'', semester = Finite 3, ipk = Finite (7 / 2),
      tanggalMasuk = str ''2023-09-01'', student_id = str ''u1''\<rparr>"

text \<open>A record with a given \<open>id\<close> and a given key in \<open>ipk\<close>.\<close>

definition withIdIpk :: "string \<Rightarrow> number \<Rightarrow> student" where
  "withIdIpk i x = exampleStudent\<lparr>student_id := str i, ipk := x\<rparr>"

text \<open>Three records in ascending order of their lower-cased names.\<close>

definition exampleRoster :: "student list" where
  "exampleRoster =
     [exampleStudent\<lparr>nama := str ''Andi'', student_id := str ''u0''\<rparr>, exampleStudent,
      exampleStudent\<lparr>nama := str ''Citra'', student_id := str ''u2''\<rparr>]"

text \<open>
  Collections for the sorts: one with a tie, one with a \<open>NaN\<close> key between two others,
  one with a \<open>NaN\<close> key between two tied ones, and four records of which only the first
  two are out of order.
\<close>

definition tiedRoster :: "student list" where
  "tiedRoster =
     [withIdIpk ''a'' (Finite 1), withIdIpk ''b'' (Finite 2), withIdIpk ''c'' (Finite 1)]"

definition nanRoster :: "student list" where
  "nanRoster = [withIdIpk ''a'' (Finite 3), withIdIpk ''b'' NaN, withIdIpk ''c'' (Finite 1)]"

definition nanTiedRoster :: "student list" where
  "nanTiedRoster =
     [withIdIpk ''a'' (Finite 1), withIdIpk ''b'' NaN, withIdIpk ''c'' (Finite 1),
      withIdIpk ''d'' (Finite 5)]"

definition fourRoster :: "student list" where
  "fourRoster =
     [withIdIpk ''a'' (Finite 2), withIdIpk ''b'' (Finite 1), withIdIpk ''c'' (Finite 3),
      withIdIpk ''d'' (Finite 4)]"

text \<open>Payloads of \<open>updateStudent\<close>: the empty object, and one that names an id and a date.\<close>

definition emptyPatch :: studentPatch where
  "emptyPatch =
     \<lparr>patch_id = Absent, patch_nim = Absent, patch_nama = Absent, patch_email = Absent,
      patch_jurusan = Absent, patch_semester = Absent, patch_ipk = Absent,
      patch_tanggalMasuk = Absent\<rparr>"

definition datePatch :: studentPatch where
  "datePatch =
     emptyPatch\<lparr>patch_id := Given (str ''u9''), patch_tanggalMasuk := Given (str ''2000-01-01'')\<rparr>"

text \<open>
  Records for the validators: a \<open>jurusan\<close> of 51 letters \<open>a\<close>, a \<open>nim\<close> that is one
  space, and a \<open>nama\<close> with a tab between its two words.
\<close>

definition longJurusan :: studentData where
  "longJurusan = exampleData\<lparr>jurusan := replicate 51 97\<rparr>"

definition blankNim :: studentData where
  "blankNim = exampleData\<lparr>nim := [32]\<rparr>"

definition tabNama :: studentData where
  "tabNama = exampleData\<lparr>nama := str ''Budi'' @ [9] @ str ''Santoso''\<rparr>"

text \<open>A collection with a \<open>NaN\<close> in it, and a value of the clock.\<close>

definition nanCollection :: "student list" where
  "nanCollection = [withIdIpk ''b'' NaN]"

definition exampleNow :: jsString where
  "exampleNow = str ''2024-01-01T00:00:00.000Z''"

text \<open>Two policies of the store: one that accepts every write, one that refuses all.\<close>

definition acceptAll :: writePolicy where
  "acceptAll store k v = True"

definition refuseAll :: writePolicy where
  "refuseAll store k v = False"

section \<open>Vocabulary of the properties\<close>

text \<open>
  The six keys of \<open>validateAllFields\<close>, the validator that the function runs for each
  key on a record, and the property name it files the message under.
\<close>

datatype fieldKey = Key_nim | Key_nama | Key_email | Key_jurusan | Key_semester | Key_ipk

fun fieldCheck :: "fieldKey \<Rightarrow> 'a studentFields_scheme \<Rightarrow> validationResult" where
  "fieldCheck Key_nim d = validateNIM (Some (nim d))"
| "fieldCheck Key_nama d = validateNama (Some (nama d))"
| "fieldCheck Key_email d = validateEmail (Some (email d))"
| "fieldCheck Key_jurusan d = validateJurusan (Some (jurusan d))"
| "fieldCheck Key_semester d = validateSemester (Some (semester d))"
| "fieldCheck Key_ipk d = validateIPK (Some (ipk d))"

definition allKeys :: "fieldKey list" where
  "allKeys = [Key_nim, Key_nama, Key_email, Key_jurusan, Key_semester, Key_ipk]"

fun keyName :: "fieldKey \<Rightarrow> jsString" where
  "keyName Key_nim = str ''nim''"
| "keyName Key_nama = str ''nama''"
| "keyName Key_email = str ''email''"
| "keyName Key_jurusan = str ''jurusan''"
| "keyName Key_semester = str ''semester''"
| "keyName Key_ipk = str ''ipk''"

text \<open>
  The rules of the six fields, stated on the values and not through the validators.
  A letter is one of the 52 ASCII letters. An email address is a local part, \<open>@\<close>, a
  domain, a dot and a top-level part: the local part is not empty and made of letters,
  digits and \<open>._%+-\<close>, the domain is not empty and made of letters, digits, dots and
  hyphens, and the top-level part is two letters or more.
\<close>

definition letter :: "nat \<Rightarrow> bool" where
  "letter c = (c \<in> {65..90} \<union> {97..122})"

definition digit :: "nat \<Rightarrow> bool" where
  "digit c = (c \<in> {48..57})"

definition emailSyntax :: "jsString \<Rightarrow> bool" where
  "emailSyntax s =
     (\<exists>localPart domainPart tld.
        s = localPart @ [64] @ domainPart @ [46] @ tld
        \<and> localPart \<noteq> [] \<and> set localPart \<subseteq> {c. letter c \<or> digit c \<or> c \<in> {46, 95, 37, 43, 45}}
        \<and> domainPart \<noteq> [] \<and> set domainPart \<subseteq> {c. letter c \<or> digit c \<or> c \<in> {46, 45}}
        \<and> 2 \<le> length tld \<and> set tld \<subseteq> {c. letter c})"

definition wholeIn :: "number \<Rightarrow> int \<Rightarrow> int \<Rightarrow> bool" where
  "wholeIn x lo hi = (\<exists>n. x = Finite (of_int n) \<and> lo \<le> n \<and> n \<le> hi)"

definition numberIn :: "number \<Rightarrow> rat \<Rightarrow> rat \<Rightarrow> bool" where
  "numberIn x lo hi = (\<exists>q. x = Finite q \<and> lo \<le> q \<and> q \<le> hi)"

text \<open>
  The rules as the specification words them: \<open>nim\<close> of 1 to 50 characters; \<open>nama\<close> of
  2 to 100 characters, letters and spaces only; \<open>email\<close> of the syntax above; \<open>jurusan\<close>
  of 2 characters or more, letters and spaces only; \<open>semester\<close> an integer from 1 to
  14; \<open>ipk\<close> a number from 0 to 4.
\<close>

fun specRule :: "fieldKey \<Rightarrow> 'a studentFields_scheme \<Rightarrow> bool" where
  "specRule Key_nim d = (1 \<le> length (nim d) \<and> length (nim d) \<le> 50)"
| "specRule Key_nama d =
     (2 \<le> length (nama d) \<and> length (nama d) \<le> 100 \<and> set (nama d) \<subseteq> {c. letter c \<or> c = 32})"
| "specRule Key_email d = emailSyntax (email d)"
| "specRule Key_jurusan d =
     (2 \<le> length (jurusan d) \<and> set (jurusan d) \<subseteq> {c. letter c \<or> c = 32})"
| "specRule Key_semester d = wholeIn (semester d) 1 14"
| "specRule Key_ipk d = numberIn (ipk d) 0 4"

text \<open>
  The rules that the validators enforce. They differ from the ones above in three
  points: a \<open>jurusan\<close> has 50 characters at most; a \<open>nim\<close>, \<open>nama\<close> or \<open>jurusan\<close> made of
  white space only counts as empty; and any white space character is accepted where a
  space is.
\<close>

definition blank :: "jsString \<Rightarrow> bool" where
  "blank s = (set s \<subseteq> {c. isWhiteSpace c})"

fun rule :: "fieldKey \<Rightarrow> 'a studentFields_scheme \<Rightarrow> bool" where
  "rule Key_nim d = (\<not> blank (nim d) \<and> length (nim d) \<le> 50)"
| "rule Key_nama d =
     (\<not> blank (nama d) \<and> 2 \<le> length (nama d) \<and> length (nama d) \<le> 100
      \<and> set (nama d) \<subseteq> {c. letter c \<or> isWhiteSpace c})"
| "rule Key_email d = emailSyntax (email d)"
| "rule Key_jurusan d =
     (\<not> blank (jurusan d) \<and> 2 \<le> length (jurusan d) \<and> length (jurusan d) \<le> 50
      \<and> set (jurusan d) \<subseteq> {c. letter c \<or> isWhiteSpace c})"
| "rule Key_semester d = wholeIn (semester d) 1 14"
| "rule Key_ipk d = numberIn (ipk d) 0 4"

text \<open>
  Reading a JavaScript value as records, to say which collection a returned \<open>data\<close>
  holds: the value has to be an array whose elements are objects with the eight
  properties of \<open>IStudent\<close>, each of its type; the record of an element is read
  property by property.
\<close>

fun stringProperty :: "jsValue \<Rightarrow> jsString \<Rightarrow> jsString option" where
  "stringProperty v k = (case jsonProperty v k of Some (VString s) \<Rightarrow> Some s | _ \<Rightarrow> None)"

fun numberProperty :: "jsValue \<Rightarrow> jsString \<Rightarrow> number option" where
  "numberProperty v k = (case jsonProperty v k of Some (VNumber x) \<Rightarrow> Some x | _ \<Rightarrow> None)"

definition studentOfValue :: "jsValue \<Rightarrow> student option" where
  "studentOfValue v =
     (case stringProperty v (str ''id'') of None \<Rightarrow> None | Some id' \<Rightarrow>
      case stringProperty v (str ''nim'') of None \<Rightarrow> None | Some nim' \<Rightarrow>
      case stringProperty v (str ''nama'') of None \<Rightarrow> None | Some nama' \<Rightarrow>
      case stringProperty v (str ''email'') of None \<Rightarrow> None | Some email' \<Rightarrow>
      case stringProperty v (str ''jurusan'') of None \<Rightarrow> None | Some jurusan' \<Rightarrow>
      case numberProperty v (str ''semester'') of None \<Rightarrow> None | Some semester' \<Rightarrow>
      case numberProperty v (str ''ipk'') of None \<Rightarrow> None | Some ipk' \<Rightarrow>
      case stringProperty v (str ''tanggalMasuk'') of None \<Rightarrow> None | Some tanggalMasuk' \<Rightarrow>
        Some \<lparr>nim = nim', nama = nama', email = email', jurusan = jurusan',
              semester = semester', ipk = ipk', tanggalMasuk = tanggalMasuk',
              student_id = id'\<rparr>)"

fun studentsOfValue :: "jsValue \<Rightarrow> student list option" where
  "studentsOfValue (VArray vs) =
     (if list_all (\<lambda>v. studentOfValue v \<noteq> None) vs then Some (map (the \<circ> studentOfValue) vs)
      else None)"
| "studentsOfValue v = None"

text \<open>
  The snapshot that \<open>saveToFile\<close> writes, after the layout of the current slot: version,
  timestamp, count and the records. \<open>finiteNumber\<close> holds of the numbers that are not
  \<open>NaN\<close> or an infinity.
\<close>

definition snapshot :: "jsString \<Rightarrow> student list \<Rightarrow> item" where
  "snapshot now students =
     JSON_stringify
       (VObject [(str ''version'', VString (str ''1.0'')), (str ''timestamp'', VString now),
                 (str ''count'', VNumber (Finite (of_nat (length students)))),
                 (str ''data'', VArray (map valueOfStudent students))])"

fun finiteNumber :: "number \<Rightarrow> bool" where
  "finiteNumber (Finite q) = True"
| "finiteNumber x = False"

text \<open>
  The store after the first step of \<open>saveToFile\<close>, which copies the current slot, if it
  holds anything, into the backup slot; and the four writes of a save, a clear and a
  restore: that copy, the new snapshot, its copy into the backup slot by the clear, and
  its copy back into the current slot by the restore.
\<close>

definition backedUp :: "localStorage \<Rightarrow> localStorage" where
  "backedUp store =
     (case store STORAGE_KEY of
        None \<Rightarrow> store
      | Some existingData \<Rightarrow>
          if truthyText existingData then store(BACKUP_KEY \<mapsto> existingData) else store)"

definition writesAccepted :: "writePolicy \<Rightarrow> localStorage \<Rightarrow> item \<Rightarrow> bool" where
  "writesAccepted accepts store snap =
     ((\<forall>existingData. store STORAGE_KEY = Some existingData \<and> truthyText existingData
          \<longrightarrow> accepts store BACKUP_KEY existingData)
      \<and> accepts (backedUp store) STORAGE_KEY snap
      \<and> accepts ((backedUp store)(STORAGE_KEY \<mapsto> snap)) BACKUP_KEY snap
      \<and> accepts (((backedUp store)(STORAGE_KEY \<mapsto> snap, BACKUP_KEY \<mapsto> snap))
                   (STORAGE_KEY := None)) STORAGE_KEY snap)"

text \<open>
  The precondition of \<open>binarySearch\<close>: the lower-cased values of the field ascend in the
  order of the string comparison.
\<close>

definition sortedByField :: "platform \<Rightarrow> student list \<Rightarrow> searchField \<Rightarrow> bool" where
  "sortedByField js students field =
     sorted (map (\<lambda>s. toLowerCase js (fieldOf s field)) students)"

text \<open>
  The comparison rule of the sorts: the key of a record is the number itself when the
  field is numeric (\<open>semester\<close>, \<open>ipk\<close>) and the lower-cased string otherwise. Two
  records are \<open>inOrder\<close> when the key of the first is \<open><=\<close> the key of the second
  (ascending) or \<open>>=\<close> it (descending); a list is \<open>monotonic\<close> when every earlier record
  is in order with every later one. \<open>noNaN\<close> says that the key of a record is not
  \<open>NaN\<close>.
\<close>

fun sortKey :: "platform \<Rightarrow> sortField \<Rightarrow> student \<Rightarrow> fieldValue" where
  "sortKey js Sort_semester s = NumV (semester s)"
| "sortKey js Sort_ipk s = NumV (ipk s)"
| "sortKey js Sort_nim s = StrV (toLowerCase js (nim s))"
| "sortKey js Sort_nama s = StrV (toLowerCase js (nama s))"
| "sortKey js Sort_jurusan s = StrV (toLowerCase js (jurusan s))"

definition inOrder :: "platform \<Rightarrow> sortField \<Rightarrow> sortOrder \<Rightarrow> student \<Rightarrow> student \<Rightarrow> bool" where
  "inOrder js field order a b =
     (if order = Asc then js_le (sortKey js field a) (sortKey js field b)
      else js_ge (sortKey js field a) (sortKey js field b))"

definition monotonic :: "platform \<Rightarrow> sortField \<Rightarrow> sortOrder \<Rightarrow> student list \<Rightarrow> bool" where
  "monotonic js field order xs = sorted_wrt (inOrder js field order) xs"

definition noNaN :: "platform \<Rightarrow> sortField \<Rightarrow> student \<Rightarrow> bool" where
  "noNaN js field s = (sortKey js field s \<noteq> NumV NaN)"

text \<open>
  Stability: the records with any one key stand in the output in the order they have
  in the input.
\<close>

definition sameKeyOrder :: "platform \<Rightarrow> sortField \<Rightarrow> student list \<Rightarrow> student list \<Rightarrow> bool" where
  "sameKeyOrder js field input output =
     (\<forall>v. filter (\<lambda>s. sortKey js field s = v) output
            = filter (\<lambda>s. sortKey js field s = v) input)"

text \<open>
  \<open>outOfOrder js field order a b\<close> is the test that makes bubble, insertion and shell
  sort move \<open>a\<close> behind \<open>b\<close>: \<open>a > b\<close> ascending, \<open>a < b\<close> descending, on the values that
  \<open>getFieldValue\<close> returns.
\<close>

definition outOfOrder :: "platform \<Rightarrow> sortField \<Rightarrow> sortOrder \<Rightarrow> student \<Rightarrow> student \<Rightarrow> bool" where
  "outOfOrder js field order a b =
     (if order = Asc then js_gt (getFieldValue js a field) (getFieldValue js b field)
      else js_lt (getFieldValue js a field) (getFieldValue js b field))"

text \<open>
  The list that the loop of \<open>merge\<close> builds from what is left of its two inputs, as a
  recursion on the two lists; the proofs relate the loop to it.
\<close>

fun merged ::
  "platform \<Rightarrow> sortField \<Rightarrow> sortOrder \<Rightarrow> student list \<Rightarrow> student list \<Rightarrow> student list" where
  "merged js field order [] ys = ys"
| "merged js field order xs [] = xs"
| "merged js field order (x # xs) (y # ys) =
     (if inOrder js field order x y then x # merged js field order xs (y # ys)
      else y # merged js field order (x # xs) ys)"

section \<open>Properties\<close>

subsection \<open>String literals\<close>

text \<open>\<open>str\<close> is injective, so literals are equal only when they are the same.\<close>

lemma str_eq_iff [simp]: "(str a = str b) = (a = b)"
proof -
  have "inj (of_char :: char \<Rightarrow> nat)" by (rule injI) simp
  then have "inj (map (of_char :: char \<Rightarrow> nat))" by simp
  then show ?thesis unfolding str_def by (auto dest: injD)
qed

lemma str_Nil [simp]: "(str a = []) = (a = [])" "([] = str a) = (a = [])"
  by (auto simp: str_def)

subsection \<open>The order of the sort keys\<close>

text \<open>
  \<open>getFieldValue\<close> returns the key of the comparison rule. Where no key is \<open>NaN\<close>, the
  test \<open>outOfOrder\<close> is a strict weak order and \<open>inOrder\<close> is its complement.
\<close>

lemma sortKey_getFieldValue [simp]: "sortKey js field s = getFieldValue js s field"
  by (cases field) simp_all

lemma num_lt_irrefl: "\<not> num_lt a a"
  by (cases a) auto

lemma num_lt_trans: "num_lt a b \<Longrightarrow> num_lt b c \<Longrightarrow> num_lt a c"
  by (cases a; cases b; cases c) auto

lemma num_lt_asym: "num_lt a b \<Longrightarrow> \<not> num_lt b a"
  by (cases a; cases b) auto

lemma num_lt_negtrans:
  "a \<noteq> NaN \<Longrightarrow> b \<noteq> NaN \<Longrightarrow> c \<noteq> NaN \<Longrightarrow> \<not> num_lt a b \<Longrightarrow> \<not> num_lt b c \<Longrightarrow> \<not> num_lt a c"
  by (cases a; cases b; cases c) auto

lemma num_le_iff: "a \<noteq> NaN \<Longrightarrow> b \<noteq> NaN \<Longrightarrow> num_le a b = (\<not> num_lt b a)"
  by (cases a; cases b) auto

lemma outOfOrder_irrefl: "\<not> outOfOrder js field order a a"
  by (cases field) (auto simp: outOfOrder_def js_gt_def num_lt_irrefl)

lemma outOfOrder_asym: "outOfOrder js field order a b \<Longrightarrow> \<not> outOfOrder js field order b a"
  by (cases field) (auto simp: outOfOrder_def js_gt_def dest: num_lt_asym split: if_splits)

lemma outOfOrder_negtrans:
  assumes "noNaN js field a" "noNaN js field b" "noNaN js field c"
    and "\<not> outOfOrder js field order a b" "\<not> outOfOrder js field order b c"
  shows "\<not> outOfOrder js field order a c"
  using assms
  by (cases field) (auto simp: outOfOrder_def js_gt_def noNaN_def dest: num_lt_negtrans split: if_splits)

lemma inOrder_iff:
  assumes "noNaN js field a" "noNaN js field b"
  shows "inOrder js field order a b = (\<not> outOfOrder js field order a b)"
  using assms
  by (cases field) (auto simp: inOrder_def outOfOrder_def js_gt_def js_ge_def noNaN_def num_le_iff)

lemma outOfOrder_key_cong:
  "getFieldValue js a field = getFieldValue js a' field \<Longrightarrow> getFieldValue js b field = getFieldValue js b' field \<Longrightarrow>
   outOfOrder js field order a b = outOfOrder js field order a' b'"
  by (simp add: outOfOrder_def)

declare bubble_inner.simps [simp del] bubble_outer.simps [simp del]
  selection_inner.simps [simp del] selection_outer.simps [simp del]
  insertion_inner.simps [simp del] insertion_outer.simps [simp del]
  shell_inner.simps [simp del] shell_pass.simps [simp del] shell_gaps.simps [simp del]
  merge_loop.simps [simp del] mergeSort_sort.simps [simp del]

subsection \<open>Bubble sort sorts\<close>

lemma take_swap_mset:
  assumes "a < p" "b < p" "p \<le> length xs"
  shows "mset (take p (xs[a := xs ! b, b := xs ! a])) = mset (take p xs)"
proof -
  have "take p (xs[a := xs ! b, b := xs ! a])
          = (take p xs)[a := take p xs ! b, b := take p xs ! a]"
    using assms by (simp add: take_update_swap)
  moreover have "mset ((take p xs)[a := take p xs ! b, b := take p xs ! a]) = mset (take p xs)"
    by (rule mset_swap) (use assms in auto)
  ultimately show ?thesis by simp
qed

lemma shouldSwap_outOfOrder:
  "(if order = Asc then js_gt (getFieldValue js a field) (getFieldValue js b field)
    else js_lt (getFieldValue js a field) (getFieldValue js b field)) = outOfOrder js field order a b"
  by (simp add: outOfOrder_def)

lemma bubble_inner_done:
  "\<not> j < n - i - 1 \<Longrightarrow> bubble_inner js field order n i j st = st"
  by (cases st) (simp add: bubble_inner.simps)

lemma bubble_inner_swap_step:
  "j < n - i - 1 \<Longrightarrow> outOfOrder js field order (ds ! j) (ds ! (j + 1)) \<Longrightarrow>
   bubble_inner js field order n i j (ds, comps, swps, swapped)
     = bubble_inner js field order n i (j + 1)
         (ds[j := ds ! (j + 1), j + 1 := ds ! j], comps + 1, swps + 1, True)"
  by (subst bubble_inner.simps) (simp add: Let_def outOfOrder_def)

lemma bubble_inner_keep_step:
  "j < n - i - 1 \<Longrightarrow> \<not> outOfOrder js field order (ds ! j) (ds ! (j + 1)) \<Longrightarrow>
   bubble_inner js field order n i j (ds, comps, swps, swapped)
     = bubble_inner js field order n i (j + 1) (ds, comps + 1, swps, swapped)"
  by (subst bubble_inner.simps) (simp add: Let_def outOfOrder_def)

lemma bubble_inner_basic:
  assumes "length (fst st) = n"
  shows "length (fst (bubble_inner js field order n i j st)) = n
         \<and> mset (fst (bubble_inner js field order n i j st)) = mset (fst st)
         \<and> mset (take (n - i) (fst (bubble_inner js field order n i j st))) = mset (take (n - i) (fst st))
         \<and> (\<forall>k. n - i \<le> k \<longrightarrow> fst (bubble_inner js field order n i j st) ! k = fst st ! k)"
  using assms
proof (induction js field order n i j st rule: bubble_inner.induct)
  case (1 js field order n i j data comps swps swapped)
  have len: "length data = n" using "1.prems" by simp
  show ?case
  proof (cases "j < n - i - 1")
    case False
    then show ?thesis using len bubble_inner_done [OF False] by simp
  next
    case True
    show ?thesis
    proof (cases "outOfOrder js field order (data ! j) (data ! (j + 1))")
      case sw: True
      let ?d = "data[j := data ! (j + 1), j + 1 := data ! j]"
      have sw': "if order = Asc then js_gt (getFieldValue js (data ! j) field) (getFieldValue js (data ! (j + 1)) field)
                 else js_lt (getFieldValue js (data ! j) field) (getFieldValue js (data ! (j + 1)) field)"
        using sw unfolding outOfOrder_def .
      have ih: "length (fst (bubble_inner js field order n i (j + 1) (?d, comps + 1, swps + 1, True))) = n
         \<and> mset (fst (bubble_inner js field order n i (j + 1) (?d, comps + 1, swps + 1, True))) = mset ?d
         \<and> mset (take (n - i) (fst (bubble_inner js field order n i (j + 1) (?d, comps + 1, swps + 1, True))))
             = mset (take (n - i) ?d)
         \<and> (\<forall>k. n - i \<le> k \<longrightarrow> fst (bubble_inner js field order n i (j + 1) (?d, comps + 1, swps + 1, True)) ! k = ?d ! k)"
        using "1.IH"(1) [OF True refl refl refl sw'] len by simp
      have step: "bubble_inner js field order n i j (data, comps, swps, swapped)
                    = bubble_inner js field order n i (j + 1) (?d, comps + 1, swps + 1, True)"
        using bubble_inner_swap_step [OF True sw] .
      have m1: "mset ?d = mset data" using True len by (simp add: mset_swap)
      have m2: "mset (take (n - i) ?d) = mset (take (n - i) data)"
        using True len by (intro take_swap_mset) auto
      have m3: "\<forall>k. n - i \<le> k \<longrightarrow> ?d ! k = data ! k" using True by auto
      show ?thesis unfolding step using ih m1 m2 m3 by simp
    next
      case nsw: False
      have sw': "\<not> (if order = Asc then js_gt (getFieldValue js (data ! j) field) (getFieldValue js (data ! (j + 1)) field)
                 else js_lt (getFieldValue js (data ! j) field) (getFieldValue js (data ! (j + 1)) field))"
        using nsw unfolding outOfOrder_def .
      have step: "bubble_inner js field order n i j (data, comps, swps, swapped)
                    = bubble_inner js field order n i (j + 1) (data, comps + 1, swps, swapped)"
        using bubble_inner_keep_step [OF True nsw] .
      show ?thesis unfolding step using "1.IH"(2) [OF True refl refl refl sw'] len by simp
    qed
  qed
qed

lemma bubble_inner_max:
  assumes "length (fst st) = n" and "i < n" and "j \<le> n - i - 1"
    and "\<forall>x \<in> set (fst st). noNaN js field x"
    and "\<forall>k < j. \<not> outOfOrder js field order (fst st ! k) (fst st ! j)"
  shows "\<forall>k < n - i - 1.
           \<not> outOfOrder js field order (fst (bubble_inner js field order n i j st) ! k)
                (fst (bubble_inner js field order n i j st) ! (n - i - 1))"
  using assms
proof (induction js field order n i j st rule: bubble_inner.induct)
  case (1 js field order n i j data comps swps swapped)
  have len: "length data = n" and clean: "\<forall>x \<in> set data. noNaN js field x"
    and mx: "\<forall>k < j. \<not> outOfOrder js field order (data ! k) (data ! j)"
    using "1.prems" by simp_all
  show ?case
  proof (cases "j < n - i - 1")
    case False
    then have "j = n - i - 1" using "1.prems"(3) by simp
    then show ?thesis using mx bubble_inner_done [OF False] by simp
  next
    case True
    have jn: "j < n" "j + 1 < n" using True by auto
    show ?thesis
    proof (cases "outOfOrder js field order (data ! j) (data ! (j + 1))")
      case sw: True
      let ?d = "data[j := data ! (j + 1), j + 1 := data ! j]"
      have sw': "if order = Asc then js_gt (getFieldValue js (data ! j) field) (getFieldValue js (data ! (j + 1)) field)
                 else js_lt (getFieldValue js (data ! j) field) (getFieldValue js (data ! (j + 1)) field)"
        using sw unfolding outOfOrder_def .
      have "mset ?d = mset data" using jn len by (simp add: mset_swap)
      then have "set ?d = set data" by (rule mset_eq_setD)
      then have c': "\<forall>x \<in> set (fst (?d, comps + 1, swps + 1, True)). noNaN js field x"
        using clean by simp
      have mx': "\<forall>k < j + 1. \<not> outOfOrder js field order (fst (?d, comps + 1, swps + 1, True) ! k)
                    (fst (?d, comps + 1, swps + 1, True) ! (j + 1))"
      proof (intro allI impI)
        fix k assume "k < j + 1"
        then consider "k < j" | "k = j" by linarith
        then show "\<not> outOfOrder js field order (fst (?d, comps + 1, swps + 1, True) ! k)
                    (fst (?d, comps + 1, swps + 1, True) ! (j + 1))"
        proof cases
          case 1
          then show ?thesis using mx jn len by simp
        next
          case 2
          then show ?thesis using sw jn len by (simp add: outOfOrder_asym)
        qed
      qed
      have "\<forall>k < n - i - 1.
           \<not> outOfOrder js field order
               (fst (bubble_inner js field order n i (j + 1) (?d, comps + 1, swps + 1, True)) ! k)
               (fst (bubble_inner js field order n i (j + 1) (?d, comps + 1, swps + 1, True)) ! (n - i - 1))"
        by (rule "1.IH"(1) [OF True refl refl refl sw' _ "1.prems"(2) _ c' mx'])
           (use True len in auto)
      then show ?thesis unfolding bubble_inner_swap_step [OF True sw] .
    next
      case nsw: False
      have sw': "\<not> (if order = Asc then js_gt (getFieldValue js (data ! j) field) (getFieldValue js (data ! (j + 1)) field)
                 else js_lt (getFieldValue js (data ! j) field) (getFieldValue js (data ! (j + 1)) field))"
        using nsw unfolding outOfOrder_def .
      have c': "\<forall>x \<in> set (fst (data, comps + 1, swps, swapped)). noNaN js field x"
        using clean by simp
      have mx': "\<forall>k < j + 1. \<not> outOfOrder js field order (fst (data, comps + 1, swps, swapped) ! k)
                    (fst (data, comps + 1, swps, swapped) ! (j + 1))"
      proof (intro allI impI)
        fix k assume "k < j + 1"
        then consider "k < j" | "k = j" by linarith
        then show "\<not> outOfOrder js field order (fst (data, comps + 1, swps, swapped) ! k)
                    (fst (data, comps + 1, swps, swapped) ! (j + 1))"
        proof cases
          case 1
          have nn: "noNaN js field (data ! k)" "noNaN js field (data ! j)" "noNaN js field (data ! (j + 1))"
            using clean 1 jn len by simp_all
          have a1: "\<not> outOfOrder js field order (data ! k) (data ! j)" using mx 1 by simp
          have "\<not> outOfOrder js field order (data ! k) (data ! (j + 1))"
            by (rule outOfOrder_negtrans [OF nn a1 nsw])
          then show ?thesis by simp
        next
          case 2
          then show ?thesis using nsw by simp
        qed
      qed
      have "\<forall>k < n - i - 1.
           \<not> outOfOrder js field order
               (fst (bubble_inner js field order n i (j + 1) (data, comps + 1, swps, swapped)) ! k)
               (fst (bubble_inner js field order n i (j + 1) (data, comps + 1, swps, swapped)) ! (n - i - 1))"
        by (rule "1.IH"(2) [OF True refl refl refl sw' _ "1.prems"(2) _ c' mx'])
           (use True len in auto)
      then show ?thesis unfolding bubble_inner_keep_step [OF True nsw] .
    qed
  qed
qed

lemma bubble_inner_noswap:
  assumes "\<not> snd (snd (snd (bubble_inner js field order n i j st)))"
  shows "\<not> snd (snd (snd st)) \<and> fst (bubble_inner js field order n i j st) = fst st
         \<and> (\<forall>k. j \<le> k \<and> k < n - i - 1 \<longrightarrow> \<not> outOfOrder js field order (fst st ! k) (fst st ! (k + 1)))"
  using assms
proof (induction js field order n i j st rule: bubble_inner.induct)
  case (1 js field order n i j data comps swps swapped)
  show ?case
  proof (cases "j < n - i - 1")
    case False
    then show ?thesis using "1.prems" bubble_inner_done [OF False] by auto
  next
    case True
    show ?thesis
    proof (cases "outOfOrder js field order (data ! j) (data ! (j + 1))")
      case sw: True
      let ?d = "data[j := data ! (j + 1), j + 1 := data ! j]"
      have sw': "if order = Asc then js_gt (getFieldValue js (data ! j) field) (getFieldValue js (data ! (j + 1)) field)
                 else js_lt (getFieldValue js (data ! j) field) (getFieldValue js (data ! (j + 1)) field)"
        using sw unfolding outOfOrder_def .
      have "\<not> snd (snd (snd (bubble_inner js field order n i (j + 1) (?d, comps + 1, swps + 1, True))))"
        using "1.prems" unfolding bubble_inner_swap_step [OF True sw] .
      from "1.IH"(1) [OF True refl refl refl sw' this] show ?thesis by simp
    next
      case nsw: False
      have sw': "\<not> (if order = Asc then js_gt (getFieldValue js (data ! j) field) (getFieldValue js (data ! (j + 1)) field)
                 else js_lt (getFieldValue js (data ! j) field) (getFieldValue js (data ! (j + 1)) field))"
        using nsw unfolding outOfOrder_def .
      have "\<not> snd (snd (snd (bubble_inner js field order n i (j + 1) (data, comps + 1, swps, swapped))))"
        using "1.prems" unfolding bubble_inner_keep_step [OF True nsw] .
      from "1.IH"(2) [OF True refl refl refl sw' this]
      have ih: "\<not> swapped"
        "fst (bubble_inner js field order n i (j + 1) (data, comps + 1, swps, swapped)) = data"
        "\<forall>k. j + 1 \<le> k \<and> k < n - i - 1 \<longrightarrow> \<not> outOfOrder js field order (data ! k) (data ! (k + 1))"
        by auto
      have "\<forall>k. j \<le> k \<and> k < n - i - 1 \<longrightarrow> \<not> outOfOrder js field order (data ! k) (data ! (k + 1))"
      proof (intro allI impI)
        fix k assume k: "j \<le> k \<and> k < n - i - 1"
        show "\<not> outOfOrder js field order (data ! k) (data ! (k + 1))"
        proof (cases "k = j")
          case True then show ?thesis using nsw by simp
        next
          case False then show ?thesis using ih(3) k by simp
        qed
      qed
      then show ?thesis unfolding bubble_inner_keep_step [OF True nsw] using ih(1,2) by simp
    qed
  qed
qed

text \<open>Neighbours in order make every pair in order.\<close>

lemma adjacent_pairwise:
  assumes "\<forall>x \<in> set ds. noNaN js field x" and "m < length ds"
    and "\<forall>k < m. \<not> outOfOrder js field order (ds ! k) (ds ! (k + 1))"
    and "k < l" and "l \<le> m"
  shows "\<not> outOfOrder js field order (ds ! k) (ds ! l)"
  using assms(4,5)
proof (induction l)
  case 0
  then show ?case by simp
next
  case (Suc l)
  show ?case
  proof (cases "k = l")
    case True
    then show ?thesis using assms(3) Suc.prems by simp
  next
    case False
    then have kl: "k < l" "l \<le> m" using Suc.prems by simp_all
    have a: "\<not> outOfOrder js field order (ds ! k) (ds ! l)" using Suc.IH kl by simp
    have b: "\<not> outOfOrder js field order (ds ! l) (ds ! (Suc l))"
      using assms(3) Suc.prems by simp
    have nn: "noNaN js field (ds ! k)" "noNaN js field (ds ! l)" "noNaN js field (ds ! Suc l)"
      using assms(1,2) Suc.prems kl by simp_all
    show ?thesis by (rule outOfOrder_negtrans [OF nn a b])
  qed
qed

lemma bubble_outer_unfold:
  "bubble_outer js field order n i (ds, comps, swps) =
     (if i < n - 1 then
        (if \<not> snd (snd (snd (bubble_inner js field order n i 0 (ds, comps, swps, False))))
         then (fst (bubble_inner js field order n i 0 (ds, comps, swps, False)),
               fst (snd (bubble_inner js field order n i 0 (ds, comps, swps, False))),
               fst (snd (snd (bubble_inner js field order n i 0 (ds, comps, swps, False)))))
         else bubble_outer js field order n (i + 1)
               (fst (bubble_inner js field order n i 0 (ds, comps, swps, False)),
                fst (snd (bubble_inner js field order n i 0 (ds, comps, swps, False))),
                fst (snd (snd (bubble_inner js field order n i 0 (ds, comps, swps, False))))))
      else (ds, comps, swps))"
  by (subst bubble_outer.simps) (simp split: prod.splits)

lemma bubble_outer_mset:
  assumes "length (fst st) = n"
  shows "length (fst (bubble_outer js field order n i st)) = n
         \<and> mset (fst (bubble_outer js field order n i st)) = mset (fst st)"
  using assms
proof (induction js field order n i st rule: bubble_outer.induct)
  case (1 js field order n i data comps swps)
  obtain d c s sw where r: "bubble_inner js field order n i 0 (data, comps, swps, False) = (d, c, s, sw)"
    by (metis prod_cases4)
  have b: "length d = n \<and> mset d = mset data"
    using bubble_inner_basic [of "(data, comps, swps, False)" n js field order i 0] "1.prems" r by simp
  show ?case
  proof (cases "i < n - 1")
    case False
    then show ?thesis using "1.prems" by (simp add: bubble_outer_unfold)
  next
    case True
    show ?thesis
    proof (cases sw)
      case False
      then show ?thesis using True r b by (simp add: bubble_outer_unfold)
    next
      case sw: True
      have "length (fst (bubble_outer js field order n (i + 1) (d, c, s))) = n
         \<and> mset (fst (bubble_outer js field order n (i + 1) (d, c, s))) = mset (fst (d, c, s))"
        by (rule "1.IH" [OF True r [symmetric] refl refl]) (use sw b in auto)
      then show ?thesis using True r b sw by (simp add: bubble_outer_unfold)
    qed
  qed
qed

lemma bubble_outer_sorted:
  assumes "length (fst st) = n"
    and "\<forall>x \<in> set (fst st). noNaN js field x"
    and "\<forall>k l. k < l \<and> n - i \<le> l \<and> l < n \<longrightarrow> \<not> outOfOrder js field order (fst st ! k) (fst st ! l)"
  shows "\<forall>k l. k < l \<and> l < n \<longrightarrow>
           \<not> outOfOrder js field order (fst (bubble_outer js field order n i st) ! k)
                (fst (bubble_outer js field order n i st) ! l)"
  using assms
proof (induction js field order n i st rule: bubble_outer.induct)
  case (1 js field order n i data comps swps)
  have len: "length data = n" and clean: "\<forall>x \<in> set data. noNaN js field x"
    and inv: "\<forall>k l. k < l \<and> n - i \<le> l \<and> l < n \<longrightarrow> \<not> outOfOrder js field order (data ! k) (data ! l)"
    using "1.prems" by simp_all
  show ?case
  proof (cases "i < n - 1")
    case False
    have "\<forall>k l. k < l \<and> l < n \<longrightarrow> \<not> outOfOrder js field order (data ! k) (data ! l)"
    proof (intro allI impI)
      fix k l assume "k < l \<and> l < n"
      then have "k < l \<and> n - i \<le> l \<and> l < n" using False by linarith
      then show "\<not> outOfOrder js field order (data ! k) (data ! l)" using inv by blast
    qed
    then show ?thesis using False by (simp add: bubble_outer_unfold)
  next
    case True
    define m where "m = n - i - 1"
    have m: "0 < m" "m < n" "n - i = m + 1" using True unfolding m_def by linarith+
    obtain d c s sw where r: "bubble_inner js field order n i 0 (data, comps, swps, False) = (d, c, s, sw)"
      by (metis prod_cases4)
    have basic: "length d = n" "mset d = mset data"
      "mset (take (m + 1) d) = mset (take (m + 1) data)"
      "\<forall>k. m + 1 \<le> k \<longrightarrow> d ! k = data ! k"
      using bubble_inner_basic [of "(data, comps, swps, False)" n js field order i 0] len r m(3)
      by simp_all
    have clean': "\<forall>x \<in> set d. noNaN js field x"
      using clean mset_eq_setD [OF basic(2)] by simp
    have mx: "\<forall>k < m. \<not> outOfOrder js field order (d ! k) (d ! m)"
      using bubble_inner_max [of "(data, comps, swps, False)" n i 0 js field order] len clean True r
      unfolding m_def by simp
    have inv': "\<forall>k l. k < l \<and> m \<le> l \<and> l < n \<longrightarrow> \<not> outOfOrder js field order (d ! k) (d ! l)"
    proof (intro allI impI)
      fix k l assume kl: "k < l \<and> m \<le> l \<and> l < n"
      show "\<not> outOfOrder js field order (d ! k) (d ! l)"
      proof (cases "l = m")
        case True
        then show ?thesis using mx kl by simp
      next
        case False
        then have l: "m + 1 \<le> l" using kl by simp
        then have dl: "d ! l = data ! l" using basic(4) by simp
        show ?thesis
        proof (cases "m + 1 \<le> k")
          case True
          then have "d ! k = data ! k" using basic(4) by simp
          then show ?thesis using dl inv kl l m(3) by simp
        next
          case False
          then have "k < m + 1" by simp
          then have "d ! k \<in> set (take (m + 1) d)"
            using basic(1) m(2) by (metis in_set_conv_nth length_take min.absorb2 nth_take less_or_eq_imp_le Suc_eq_plus1 Suc_leI)
          then have "d ! k \<in> set (take (m + 1) data)"
            using mset_eq_setD [OF basic(3)] by simp
          then obtain k' where k': "k' < m + 1" "data ! k' = d ! k"
            using len m(2) by (auto simp: in_set_conv_nth)
          have "k' < l" using k'(1) l by simp
          then have "\<not> outOfOrder js field order (data ! k') (data ! l)"
            using inv l kl m(3) by simp
          then show ?thesis using k'(2) dl by simp
        qed
      qed
    qed
    show ?thesis
    proof (cases sw)
      case False
      then have ns: "\<not> snd (snd (snd (bubble_inner js field order n i 0 (data, comps, swps, False))))"
        using r by simp
      have same: "d = data"
        and adj: "\<forall>k < m. \<not> outOfOrder js field order (data ! k) (data ! (k + 1))"
        using bubble_inner_noswap [OF ns] r unfolding m_def by simp_all
      have "\<forall>k l. k < l \<and> l < n \<longrightarrow> \<not> outOfOrder js field order (d ! k) (d ! l)"
      proof (intro allI impI)
        fix k l assume kl: "k < l \<and> l < n"
        show "\<not> outOfOrder js field order (d ! k) (d ! l)"
        proof (cases "m \<le> l")
          case True
          then show ?thesis using inv' kl by simp
        next
          case False
          then show ?thesis
            using adjacent_pairwise [OF clean _ adj, of k l] m(2) len kl same by simp
        qed
      qed
      then show ?thesis using True r False by (simp add: bubble_outer_unfold)
    next
      case sw: True
      have nn: "\<not> \<not> sw" using sw by simp
      have l1: "length (fst (d, c, s)) = n" using basic(1) by simp
      have c1: "\<forall>x \<in> set (fst (d, c, s)). noNaN js field x" using clean' by simp
      have "n - (i + 1) = m" unfolding m_def by simp
      then have i1: "\<forall>k l. k < l \<and> n - (i + 1) \<le> l \<and> l < n \<longrightarrow>
           \<not> outOfOrder js field order (fst (d, c, s) ! k) (fst (d, c, s) ! l)"
        using inv' by simp
      have "\<forall>k l. k < l \<and> l < n \<longrightarrow>
           \<not> outOfOrder js field order (fst (bubble_outer js field order n (i + 1) (d, c, s)) ! k)
                (fst (bubble_outer js field order n (i + 1) (d, c, s)) ! l)"
        by (rule "1.IH" [OF True r [symmetric] refl refl nn l1 c1 i1])
      then show ?thesis using True r sw by (simp add: bubble_outer_unfold)
    qed
  qed
qed

lemma pairwise_monotonic:
  assumes "\<forall>x \<in> set ds. noNaN js field x"
    and "\<forall>k l. k < l \<and> l < length ds \<longrightarrow> \<not> outOfOrder js field order (ds ! k) (ds ! l)"
  shows "monotonic js field order ds"
proof -
  have "\<forall>k l. k < l \<longrightarrow> l < length ds \<longrightarrow> inOrder js field order (ds ! k) (ds ! l)"
  proof (intro allI impI)
    fix k l assume kl: "k < l" "l < length ds"
    then have "noNaN js field (ds ! k)" "noNaN js field (ds ! l)" using assms(1) by auto
    then show "inOrder js field order (ds ! k) (ds ! l)"
      using inOrder_iff assms(2) kl by simp
  qed
  then show ?thesis unfolding monotonic_def by (simp add: sorted_wrt_iff_nth_less)
qed

lemma bubbleSort_sortedData:
  "sortedData (bubbleSort js students field order)
     = fst (bubble_outer js field order (length students) 0 (students, 0, 0))"
  by (simp add: bubbleSort_def case_prod_beta)

lemma bubbleSort_permutation:
  "mset (sortedData (bubbleSort js students field order)) = mset students"
  using bubble_outer_mset [of "(students, 0, 0)" "length students" js field order 0]
  by (simp add: bubbleSort_sortedData)

lemma bubbleSort_monotonic:
  assumes "\<forall>s \<in> set students. noNaN js field s"
  shows "monotonic js field order (sortedData (bubbleSort js students field order))"
proof -
  let ?r = "bubble_outer js field order (length students) 0 (students, 0, 0)"
  have len: "length (fst ?r) = length students" and ms: "mset (fst ?r) = mset students"
    using bubble_outer_mset [of "(students, 0, 0)" "length students" js field order 0] by simp_all
  have "\<forall>k l. k < l \<and> l < length students \<longrightarrow> \<not> outOfOrder js field order (fst ?r ! k) (fst ?r ! l)"
    by (rule bubble_outer_sorted) (use assms in auto)
  moreover have "\<forall>x \<in> set (fst ?r). noNaN js field x"
    using assms mset_eq_setD [OF ms] by simp
  ultimately have "monotonic js field order (fst ?r)"
    using pairwise_monotonic len by simp
  then show ?thesis by (simp add: bubbleSort_sortedData)
qed

subsection \<open>Selection sort sorts\<close>

lemma selection_inner_done:
  "\<not> j < n \<Longrightarrow> selection_inner js field order n ds j st = st"
  by (cases st) (simp add: selection_inner.simps)

lemma selection_inner_step:
  "j < n \<Longrightarrow>
   selection_inner js field order n ds j (sel, comps)
     = selection_inner js field order n ds (j + 1)
         (if outOfOrder js field order (ds ! sel) (ds ! j) then j else sel, comps + 1)"
  by (subst selection_inner.simps) (simp add: Let_def outOfOrder_def js_gt_def)

lemma selection_inner_min:
  assumes "i \<le> fst st" and "fst st < j" and "j \<le> n" and "n = length ds"
    and "\<forall>x \<in> set ds. noNaN js field x"
    and "\<forall>k. i \<le> k \<and> k < j \<longrightarrow> \<not> outOfOrder js field order (ds ! fst st) (ds ! k)"
  shows "i \<le> fst (selection_inner js field order n ds j st)
         \<and> fst (selection_inner js field order n ds j st) < n
         \<and> (\<forall>k. i \<le> k \<and> k < n \<longrightarrow>
               \<not> outOfOrder js field order (ds ! fst (selection_inner js field order n ds j st)) (ds ! k))"
  using assms
proof (induction js field order n ds j st rule: selection_inner.induct)
  case (1 js field order n ds j sel comps)
  have sel: "i \<le> sel" "sel < j" and jn: "j \<le> n" and len: "n = length ds"
    and clean: "\<forall>x \<in> set ds. noNaN js field x"
    and mn: "\<forall>k. i \<le> k \<and> k < j \<longrightarrow> \<not> outOfOrder js field order (ds ! sel) (ds ! k)"
    using "1.prems" by simp_all
  show ?case
  proof (cases "j < n")
    case False
    then have "j = n" using jn by simp
    then show ?thesis using sel mn selection_inner_done [OF False] by simp
  next
    case True
    let ?s = "if outOfOrder js field order (ds ! sel) (ds ! j) then j else sel"
    have s1: "i \<le> ?s" "?s < j + 1" using sel by auto
    have mn': "\<forall>k. i \<le> k \<and> k < j + 1 \<longrightarrow> \<not> outOfOrder js field order (ds ! ?s) (ds ! k)"
    proof (intro allI impI)
      fix k assume k: "i \<le> k \<and> k < j + 1"
      have nn: "noNaN js field (ds ! k)" "noNaN js field (ds ! j)" "noNaN js field (ds ! sel)"
        using clean k True sel len by auto
      show "\<not> outOfOrder js field order (ds ! ?s) (ds ! k)"
      proof (cases "outOfOrder js field order (ds ! sel) (ds ! j)")
        case oo: True
        show ?thesis
        proof (cases "k = j")
          case True
          then show ?thesis using oo by (simp add: outOfOrder_irrefl)
        next
          case False
          then have "\<not> outOfOrder js field order (ds ! sel) (ds ! k)" using mn k by simp
          moreover have "\<not> outOfOrder js field order (ds ! j) (ds ! sel)"
            using oo by (rule outOfOrder_asym)
          ultimately have "\<not> outOfOrder js field order (ds ! j) (ds ! k)"
            using outOfOrder_negtrans [OF nn(2) nn(3) nn(1)] by simp
          then show ?thesis using oo by simp
        qed
      next
        case no: False
        show ?thesis
        proof (cases "k = j")
          case True
          then show ?thesis using no by simp
        next
          case False
          then show ?thesis using mn k no by simp
        qed
      qed
    qed
    have "i \<le> fst (selection_inner js field order n ds (j + 1) (?s, comps + 1))
         \<and> fst (selection_inner js field order n ds (j + 1) (?s, comps + 1)) < n
         \<and> (\<forall>k. i \<le> k \<and> k < n \<longrightarrow>
               \<not> outOfOrder js field order
                   (ds ! fst (selection_inner js field order n ds (j + 1) (?s, comps + 1))) (ds ! k))"
    proof (cases "outOfOrder js field order (ds ! sel) (ds ! j)")
      case oo: True
      have e: "(if (if order = Asc
                    then js_lt (getFieldValue js (ds ! j) field) (getFieldValue js (ds ! sel) field)
                    else js_gt (getFieldValue js (ds ! j) field) (getFieldValue js (ds ! sel) field))
                then j else sel, comps + 1) = (?s, comps + 1)"
        by (simp add: outOfOrder_def js_gt_def)
      show ?thesis
        using "1.IH" [OF True refl refl refl, unfolded e] s1 mn' True len clean by simp
    next
      case no: False
      have e: "(if (if order = Asc
                    then js_lt (getFieldValue js (ds ! j) field) (getFieldValue js (ds ! sel) field)
                    else js_gt (getFieldValue js (ds ! j) field) (getFieldValue js (ds ! sel) field))
                then j else sel, comps + 1) = (?s, comps + 1)"
        by (simp add: outOfOrder_def js_gt_def)
      show ?thesis
        using "1.IH" [OF True refl refl refl, unfolded e] s1 mn' True len clean by simp
    qed
    then show ?thesis unfolding selection_inner_step [OF True] .
  qed
qed

lemma selection_inner_bound:
  assumes "fst st < n"
  shows "fst (selection_inner js field order n ds j st) < n"
  using assms
proof (induction js field order n ds j st rule: selection_inner.induct)
  case (1 js field order n ds j sel comps)
  show ?case
  proof (cases "j < n")
    case False
    then show ?thesis using "1.prems" selection_inner_done [OF False] by simp
  next
    case True
    let ?s = "if (if order = Asc
                    then js_lt (getFieldValue js (ds ! j) field) (getFieldValue js (ds ! sel) field)
                    else js_gt (getFieldValue js (ds ! j) field) (getFieldValue js (ds ! sel) field))
              then j else sel"
    have b: "fst (?s, comps + 1) < n" using True "1.prems" by simp
    have step: "selection_inner js field order n ds j (sel, comps)
                  = selection_inner js field order n ds (j + 1) (?s, comps + 1)"
      using True by (subst selection_inner.simps) (simp add: Let_def)
    show ?thesis unfolding step by (rule "1.IH" [OF True refl refl refl b])
  qed
qed

lemma selection_outer_done:
  "\<not> i < n - 1 \<Longrightarrow> selection_outer js field order n i st = st"
  by (cases st) (simp add: selection_outer.simps)

lemma selection_outer_step:
  "i < n - 1 \<Longrightarrow>
   selection_outer js field order n i (ds, comps, swps)
     = selection_outer js field order n (i + 1)
         (ds[i := ds ! fst (selection_inner js field order n ds (i + 1) (i, comps)),
             fst (selection_inner js field order n ds (i + 1) (i, comps)) := ds ! i],
          snd (selection_inner js field order n ds (i + 1) (i, comps)),
          if fst (selection_inner js field order n ds (i + 1) (i, comps)) \<noteq> i then swps + 1 else swps)"
  by (subst selection_outer.simps) (auto simp: case_prod_beta)

lemma selection_outer_mset:
  assumes "length (fst st) = n"
  shows "length (fst (selection_outer js field order n i st)) = n
         \<and> mset (fst (selection_outer js field order n i st)) = mset (fst st)"
  using assms
proof (induction js field order n i st rule: selection_outer.induct)
  case (1 js field order n i data comps swps)
  have len: "length data = n" using "1.prems" by simp
  show ?case
  proof (cases "i < n - 1")
    case False
    then show ?thesis using len selection_outer_done [OF False] by simp
  next
    case True
    define s where "s = fst (selection_inner js field order n data (i + 1) (i, comps))"
    define c where "c = snd (selection_inner js field order n data (i + 1) (i, comps))"
    have r: "(s, c) = selection_inner js field order n data (i + 1) (i, comps)"
      by (simp add: s_def c_def)
    have sn: "s < n"
      unfolding s_def by (rule selection_inner_bound) (use True in simp)
    have ms: "mset (data[i := data ! s, s := data ! i]) = mset data"
      using sn True len by (simp add: mset_swap)
    show ?thesis
    proof (cases "s \<noteq> i")
      case ne: True
      have "length (fst (selection_outer js field order n (i + 1)
                (data[i := data ! s, s := data ! i], c, swps + 1))) = n
            \<and> mset (fst (selection_outer js field order n (i + 1)
                (data[i := data ! s, s := data ! i], c, swps + 1)))
               = mset (fst (data[i := data ! s, s := data ! i], c, swps + 1))"
        by (rule "1.IH"(1) [OF True r ne]) (use len in simp)
      then show ?thesis
        unfolding selection_outer_step [OF True] s_def [symmetric] c_def [symmetric]
        using ms ne by simp
    next
      case eq: False
      have "length (fst (selection_outer js field order n (i + 1) (data, c, swps))) = n
            \<and> mset (fst (selection_outer js field order n (i + 1) (data, c, swps)))
               = mset (fst (data, c, swps))"
        by (rule "1.IH"(2) [OF True r eq]) (use len in simp)
      then show ?thesis
        unfolding selection_outer_step [OF True] s_def [symmetric] c_def [symmetric]
        using eq by simp
    qed
  qed
qed

lemma selection_outer_sorted:
  assumes "length (fst st) = n"
    and "\<forall>x \<in> set (fst st). noNaN js field x"
    and "\<forall>k l. k < l \<and> k < i \<and> l < n \<longrightarrow> \<not> outOfOrder js field order (fst st ! k) (fst st ! l)"
  shows "\<forall>k l. k < l \<and> l < n \<longrightarrow>
           \<not> outOfOrder js field order (fst (selection_outer js field order n i st) ! k)
                (fst (selection_outer js field order n i st) ! l)"
  using assms
proof (induction js field order n i st rule: selection_outer.induct)
  case (1 js field order n i data comps swps)
  have len: "length data = n" and clean: "\<forall>x \<in> set data. noNaN js field x"
    and inv: "\<forall>k l. k < l \<and> k < i \<and> l < n \<longrightarrow> \<not> outOfOrder js field order (data ! k) (data ! l)"
    using "1.prems" by simp_all
  show ?case
  proof (cases "i < n - 1")
    case False
    have "\<forall>k l. k < l \<and> l < n \<longrightarrow> \<not> outOfOrder js field order (data ! k) (data ! l)"
    proof (intro allI impI)
      fix k l assume "k < l \<and> l < n"
      then have "k < l \<and> k < i \<and> l < n" using False by linarith
      then show "\<not> outOfOrder js field order (data ! k) (data ! l)" using inv by blast
    qed
    then show ?thesis using selection_outer_done [OF False] by simp
  next
    case True
    define s where "s = fst (selection_inner js field order n data (i + 1) (i, comps))"
    define c where "c = snd (selection_inner js field order n data (i + 1) (i, comps))"
    have r: "(s, c) = selection_inner js field order n data (i + 1) (i, comps)"
      by (simp add: s_def c_def)
    have start: "\<forall>k. i \<le> k \<and> k < i + 1 \<longrightarrow>
                   \<not> outOfOrder js field order (data ! fst (i, comps)) (data ! k)"
    proof (intro allI impI)
      fix k assume "i \<le> k \<and> k < i + 1"
      then have "k = i" by simp
      then show "\<not> outOfOrder js field order (data ! fst (i, comps)) (data ! k)"
        by (simp add: outOfOrder_irrefl)
    qed
    have "i \<le> fst (selection_inner js field order n data (i + 1) (i, comps))
         \<and> fst (selection_inner js field order n data (i + 1) (i, comps)) < n
         \<and> (\<forall>k. i \<le> k \<and> k < n \<longrightarrow>
               \<not> outOfOrder js field order
                   (data ! fst (selection_inner js field order n data (i + 1) (i, comps))) (data ! k))"
      by (rule selection_inner_min [OF _ _ _ len [symmetric] clean start]) (use True in simp_all)
    then have smin: "i \<le> s" "s < n"
      "\<forall>k. i \<le> k \<and> k < n \<longrightarrow> \<not> outOfOrder js field order (data ! s) (data ! k)"
      unfolding s_def by simp_all
    let ?d = "data[i := data ! s, s := data ! i]"
    have ms: "mset ?d = mset data" using smin True len by (simp add: mset_swap)
    have clean': "\<forall>x \<in> set ?d. noNaN js field x"
      using clean mset_eq_setD [OF ms] by simp
    have src: "\<exists>l'. ?d ! l = data ! l' \<and> (l < i \<longrightarrow> l' = l) \<and> (i \<le> l \<longrightarrow> i \<le> l' \<and> l' < n)"
      if "l < n" for l
    proof -
      consider "l = s" | "l \<noteq> s" "l = i" | "l \<noteq> s" "l \<noteq> i" by blast
      then show ?thesis
      proof cases
        case 1
        then have "?d ! l = data ! i" using smin len by simp
        then show ?thesis using True 1 smin by (intro exI [of _ i]) auto
      next
        case 2
        then have "?d ! l = data ! s" using True len by simp
        then show ?thesis using 2 smin by (intro exI [of _ s]) auto
      next
        case 3
        then have "?d ! l = data ! l" by simp
        then show ?thesis using that by (intro exI [of _ l]) auto
      qed
    qed
    have inv': "\<forall>k l. k < l \<and> k < i + 1 \<and> l < n \<longrightarrow> \<not> outOfOrder js field order (?d ! k) (?d ! l)"
    proof (intro allI impI)
      fix k l assume kl: "k < l \<and> k < i + 1 \<and> l < n"
      obtain l' where l': "?d ! l = data ! l'" "l < i \<longrightarrow> l' = l" "i \<le> l \<longrightarrow> i \<le> l' \<and> l' < n"
        using src [of l] kl by blast
      show "\<not> outOfOrder js field order (?d ! k) (?d ! l)"
      proof (cases "k < i")
        case True
        then have dk: "?d ! k = data ! k" using smin by simp
        have "k < l' \<and> l' < n" using l'(2,3) kl True by (cases "l < i") auto
        then show ?thesis using inv True dk l'(1) by simp
      next
        case False
        then have ki: "k = i" using kl by simp
        then have dk: "?d ! k = data ! s" using smin len True
          by (cases "s = i") auto
        have "i \<le> l' \<and> l' < n" using l'(3) kl ki by simp
        then show ?thesis using smin(3) dk l'(1) by simp
      qed
    qed
    show ?thesis
    proof (cases "s \<noteq> i")
      case ne: True
      have "\<forall>k l. k < l \<and> l < n \<longrightarrow>
           \<not> outOfOrder js field order
               (fst (selection_outer js field order n (i + 1) (?d, c, swps + 1)) ! k)
               (fst (selection_outer js field order n (i + 1) (?d, c, swps + 1)) ! l)"
        by (rule "1.IH"(1) [OF True r ne]) (use len clean' inv' in simp_all)
      then show ?thesis
        unfolding selection_outer_step [OF True] s_def [symmetric] c_def [symmetric]
        using ne by simp
    next
      case eq: False
      then have d: "?d = data" by simp
      have "\<forall>k l. k < l \<and> l < n \<longrightarrow>
           \<not> outOfOrder js field order
               (fst (selection_outer js field order n (i + 1) (data, c, swps)) ! k)
               (fst (selection_outer js field order n (i + 1) (data, c, swps)) ! l)"
        by (rule "1.IH"(2) [OF True r eq]) (use len clean inv' d in simp_all)
      then show ?thesis
        unfolding selection_outer_step [OF True] s_def [symmetric] c_def [symmetric]
        using eq by simp
    qed
  qed
qed

lemma selectionSort_sortedData:
  "sortedData (selectionSort js students field order)
     = fst (selection_outer js field order (length students) 0 (students, 0, 0))"
  by (simp add: selectionSort_def case_prod_beta)

lemma selectionSort_permutation:
  "mset (sortedData (selectionSort js students field order)) = mset students"
  using selection_outer_mset [of "(students, 0, 0)" "length students" js field order 0]
  by (simp add: selectionSort_sortedData)

lemma selectionSort_monotonic:
  assumes "\<forall>s \<in> set students. noNaN js field s"
  shows "monotonic js field order (sortedData (selectionSort js students field order))"
proof -
  let ?r = "selection_outer js field order (length students) 0 (students, 0, 0)"
  have len: "length (fst ?r) = length students" and ms: "mset (fst ?r) = mset students"
    using selection_outer_mset [of "(students, 0, 0)" "length students" js field order 0] by simp_all
  have "\<forall>k l. k < l \<and> l < length students \<longrightarrow> \<not> outOfOrder js field order (fst ?r ! k) (fst ?r ! l)"
    by (rule selection_outer_sorted) (use assms in auto)
  moreover have "\<forall>x \<in> set (fst ?r). noNaN js field x"
    using assms mset_eq_setD [OF ms] by simp
  ultimately have "monotonic js field order (fst ?r)"
    using pairwise_monotonic len by simp
  then show ?thesis by (simp add: selectionSort_sortedData)
qed

subsection \<open>Shell sort and insertion sort sort\<close>

lemma shell_inner_done:
  "\<not> (0 < gap \<and> gap \<le> j) \<Longrightarrow>
   shell_inner js field order gap tv j (ds, comps, swps) = (j, ds, comps, swps)"
  by (subst shell_inner.simps) auto

lemma shell_inner_shift:
  "0 < gap \<Longrightarrow> gap \<le> j \<Longrightarrow> outOfOrder js field order (ds ! (j - gap)) temp \<Longrightarrow>
   shell_inner js field order gap (getFieldValue js temp field) j (ds, comps, swps)
     = shell_inner js field order gap (getFieldValue js temp field) (j - gap)
         (ds[j := ds ! (j - gap)], comps + 1, swps + 1)"
  by (subst shell_inner.simps) (simp add: Let_def outOfOrder_def)

lemma shell_inner_stop:
  "0 < gap \<Longrightarrow> gap \<le> j \<Longrightarrow> \<not> outOfOrder js field order (ds ! (j - gap)) temp \<Longrightarrow>
   shell_inner js field order gap (getFieldValue js temp field) j (ds, comps, swps)
     = (j, ds, comps + 1, swps)"
  by (subst shell_inner.simps) (simp add: Let_def outOfOrder_def)

text \<open>The loop keeps the records: with the held record put in the hole, nothing is lost.\<close>

lemma shell_inner_perm:
  assumes "j < length (fst st)"
  shows "fst (shell_inner js field order gap tv j st) \<le> j
         \<and> length (fst (snd (shell_inner js field order gap tv j st))) = length (fst st)
         \<and> mset ((fst (snd (shell_inner js field order gap tv j st)))
                   [fst (shell_inner js field order gap tv j st) := temp])
             = mset ((fst st)[j := temp])"
  using assms
proof (induction js field order gap tv j st rule: shell_inner.induct)
  case (1 js field order gap tv j data comps swps)
  have jl: "j < length data" using "1.prems" by simp
  show ?case
  proof (cases "0 < gap \<and> gap \<le> j")
    case False
    show ?thesis unfolding shell_inner_done [OF False] by simp
  next
    case True
    let ?sh = "if order = Asc then js_gt (getFieldValue js (data ! (j - gap)) field) tv
               else js_lt (getFieldValue js (data ! (j - gap)) field) tv"
    show ?thesis
    proof (cases ?sh)
      case False
      have stop: "shell_inner js field order gap tv j (data, comps, swps) = (j, data, comps + 1, swps)"
        using True False by (subst shell_inner.simps) (simp add: Let_def)
      show ?thesis unfolding stop by simp
    next
      case sh: True
      let ?d = "data[j := data ! (j - gap)]"
      have step: "shell_inner js field order gap tv j (data, comps, swps)
                    = shell_inner js field order gap tv (j - gap) (?d, comps + 1, swps + 1)"
        using True sh by (subst shell_inner.simps) (simp add: Let_def)
      have ih: "fst (shell_inner js field order gap tv (j - gap) (?d, comps + 1, swps + 1)) \<le> j - gap
         \<and> length (fst (snd (shell_inner js field order gap tv (j - gap) (?d, comps + 1, swps + 1))))
             = length (fst (?d, comps + 1, swps + 1))
         \<and> mset ((fst (snd (shell_inner js field order gap tv (j - gap) (?d, comps + 1, swps + 1))))
                   [fst (shell_inner js field order gap tv (j - gap) (?d, comps + 1, swps + 1)) := temp])
             = mset ((fst (?d, comps + 1, swps + 1))[j - gap := temp])"
        by (rule "1.IH" [OF True refl refl sh]) (use jl in simp)
      have ne: "j \<noteq> j - gap" using True by linarith
      have e1: "data[j := temp] ! (j - gap) = data ! (j - gap)" using ne by simp
      have e2: "data[j := temp] ! j = temp" using jl by simp
      have "?d[j - gap := temp] = (data[j := temp])[j := data[j := temp] ! (j - gap), j - gap := data[j := temp] ! j]"
        unfolding e1 e2 by simp
      also have "mset \<dots> = mset (data[j := temp])"
        by (rule mset_swap) (use True jl in auto)
      finally have sw: "mset (?d[j - gap := temp]) = mset (data[j := temp])" .
      have "fst (shell_inner js field order gap tv (j - gap) (?d, comps + 1, swps + 1)) \<le> j"
        using ih by linarith
      then show ?thesis unfolding step using ih sw by simp
    qed
  qed
qed

lemma shell_pass_done:
  "\<not> i < n \<Longrightarrow> shell_pass js field order n gap i st = st"
  by (cases st) (simp add: shell_pass.simps)

lemma shell_pass_step:
  "i < n \<Longrightarrow>
   shell_pass js field order n gap i (ds, comps, swps)
     = shell_pass js field order n gap (i + 1)
         ((fst (snd (shell_inner js field order gap (getFieldValue js (ds ! i) field) i (ds, comps, swps))))
            [fst (shell_inner js field order gap (getFieldValue js (ds ! i) field) i (ds, comps, swps)) := ds ! i],
          fst (snd (snd (shell_inner js field order gap (getFieldValue js (ds ! i) field) i (ds, comps, swps)))),
          snd (snd (snd (shell_inner js field order gap (getFieldValue js (ds ! i) field) i (ds, comps, swps)))))"
  by (subst shell_pass.simps) (simp add: Let_def case_prod_beta)

lemma shell_pass_mset:
  assumes "length (fst st) = n"
  shows "length (fst (shell_pass js field order n gap i st)) = n
         \<and> mset (fst (shell_pass js field order n gap i st)) = mset (fst st)"
  using assms
proof (induction js field order n gap i st rule: shell_pass.induct)
  case (1 js field order n gap i data comps swps)
  have len: "length data = n" using "1.prems" by simp
  show ?case
  proof (cases "i < n")
    case False
    then show ?thesis using len shell_pass_done [OF False] by simp
  next
    case True
    define R where "R = shell_inner js field order gap (getFieldValue js (data ! i) field) i (data, comps, swps)"
    obtain j d c s where r: "R = (j, d, c, s)" by (metis prod_cases4)
    have p: "j \<le> i" "length d = n" "mset (d[j := data ! i]) = mset data"
      using shell_inner_perm [of i "(data, comps, swps)" js field order gap
              "getFieldValue js (data ! i) field" "data ! i"] True len r
      unfolding R_def by simp_all
    have "length (fst (shell_pass js field order n gap (i + 1) (d[j := data ! i], c, s))) = n
         \<and> mset (fst (shell_pass js field order n gap (i + 1) (d[j := data ! i], c, s)))
             = mset (fst (d[j := data ! i], c, s))"
      by (rule "1.IH" [OF True refl refl r [unfolded R_def, symmetric] refl refl])
         (use p in simp)
    then show ?thesis
      unfolding shell_pass_step [OF True] R_def [symmetric] r using p by simp
  qed
qed

lemma shell_gaps_mset:
  assumes "length (fst st) = n"
  shows "length (fst (shell_gaps js field order n gap st)) = n
         \<and> mset (fst (shell_gaps js field order n gap st)) = mset (fst st)"
  using assms
proof (induction js field order n gap st rule: shell_gaps.induct)
  case (1 js field order n gap st)
  show ?case
  proof (cases "gap > 0")
    case False
    then show ?thesis using "1.prems" by (subst (1 2) shell_gaps.simps) simp
  next
    case True
    have p: "length (fst (shell_pass js field order n gap gap st)) = n"
      "mset (fst (shell_pass js field order n gap gap st)) = mset (fst st)"
      using shell_pass_mset [OF "1.prems"] by simp_all
    have step: "shell_gaps js field order n gap st
                 = shell_gaps js field order n (gap div 2) (shell_pass js field order n gap gap st)"
      using True by (subst shell_gaps.simps) simp
    show ?thesis unfolding step using "1.IH" [OF True p(1)] p(2) by simp
  qed
qed

text \<open>
  With gap 1 the loop is the insertion step: when the records up to \<open>i\<close> other than the
  hole \<open>j\<close> are in order and those behind the hole are out of order with the held record,
  putting the held record where the loop stops leaves the records up to \<open>i\<close> in order.
\<close>

lemma shell_inner_insert:
  assumes "j \<le> i" and "i < length ds"
    and "\<forall>x \<in> set ds. noNaN js field x" and "noNaN js field temp"
    and "\<forall>k l. k < l \<and> l \<le> i \<and> k \<noteq> j \<and> l \<noteq> j \<longrightarrow> \<not> outOfOrder js field order (ds ! k) (ds ! l)"
    and "\<forall>l. j < l \<and> l \<le> i \<longrightarrow> outOfOrder js field order (ds ! l) temp"
    and "R = shell_inner js field order 1 (getFieldValue js temp field) j (ds, comps, swps)"
  shows "\<forall>k l. k < l \<and> l \<le> i \<longrightarrow>
           \<not> outOfOrder js field order ((fst (snd R))[fst R := temp] ! k)
                ((fst (snd R))[fst R := temp] ! l)"
  using assms
proof (induction j arbitrary: ds comps swps R)
  case 0
  then have R: "R = (0, ds, comps, swps)" by (simp add: shell_inner_done)
  have ne: "ds \<noteq> []" using "0.prems"(2) by auto
  have "\<not> outOfOrder js field order (ds[0 := temp] ! k) (ds[0 := temp] ! l)"
    if "k < l \<and> l \<le> i" for k l
  proof (cases "k = 0")
    case True
    then have "outOfOrder js field order (ds ! l) temp" using "0.prems"(6) that by simp
    then show ?thesis using True that "0.prems"(2) ne by (simp add: outOfOrder_asym)
  next
    case False
    then show ?thesis using "0.prems"(5) that by simp
  qed
  then show ?case unfolding R by simp
next
  case (Suc j)
  have ji: "Suc j \<le> i" and il: "i < length ds"
    and clean: "\<forall>x \<in> set ds. noNaN js field x" and ct: "noNaN js field temp"
    and a: "\<forall>k l. k < l \<and> l \<le> i \<and> k \<noteq> Suc j \<and> l \<noteq> Suc j \<longrightarrow> \<not> outOfOrder js field order (ds ! k) (ds ! l)"
    and b: "\<forall>l. Suc j < l \<and> l \<le> i \<longrightarrow> outOfOrder js field order (ds ! l) temp"
    using Suc.prems by simp_all
  show ?case
  proof (cases "outOfOrder js field order (ds ! j) temp")
    case sh: True
    let ?d = "ds[Suc j := ds ! j]"
    have R: "R = shell_inner js field order 1 (getFieldValue js temp field) j (?d, comps + 1, swps + 1)"
      using Suc.prems(7) shell_inner_shift [of 1 "Suc j" js field order ds temp] sh by simp
    have c': "\<forall>x \<in> set ?d. noNaN js field x"
    proof
      fix x assume "x \<in> set ?d"
      then have "x \<in> insert (ds ! j) (set ds)" using set_update_subset_insert by fastforce
      then show "noNaN js field x" using clean ji il by auto
    qed
    have a': "\<forall>k l. k < l \<and> l \<le> i \<and> k \<noteq> j \<and> l \<noteq> j \<longrightarrow> \<not> outOfOrder js field order (?d ! k) (?d ! l)"
    proof (intro allI impI)
      fix k l assume kl: "k < l \<and> l \<le> i \<and> k \<noteq> j \<and> l \<noteq> j"
      consider "l = Suc j" | "k = Suc j" | "k \<noteq> Suc j" "l \<noteq> Suc j" by blast
      then show "\<not> outOfOrder js field order (?d ! k) (?d ! l)"
      proof cases
        case 1
        then have "k < j" using kl by simp
        then have "\<not> outOfOrder js field order (ds ! k) (ds ! j)" using a ji by simp
        then show ?thesis using 1 \<open>k < j\<close> il ji by simp
      next
        case 2
        then have "\<not> outOfOrder js field order (ds ! j) (ds ! l)" using a kl by simp
        then show ?thesis using 2 kl il by simp
      next
        case 3
        then show ?thesis using a kl by simp
      qed
    qed
    have b': "\<forall>l. j < l \<and> l \<le> i \<longrightarrow> outOfOrder js field order (?d ! l) temp"
    proof (intro allI impI)
      fix l assume l: "j < l \<and> l \<le> i"
      show "outOfOrder js field order (?d ! l) temp"
      proof (cases "l = Suc j")
        case True
        then show ?thesis using sh il ji by simp
      next
        case False
        then show ?thesis using b l by simp
      qed
    qed
    show ?thesis
      by (rule Suc.IH [OF _ _ c' ct a' b' R]) (use ji il in auto)
  next
    case st: False
    have R: "R = (Suc j, ds, comps + 1, swps)"
      using Suc.prems(7) shell_inner_stop [of 1 "Suc j" js field order ds temp] st by simp
    have "\<not> outOfOrder js field order (ds[Suc j := temp] ! k) (ds[Suc j := temp] ! l)"
      if kl: "k < l \<and> l \<le> i" for k l
    proof -
      consider "l = Suc j" | "k = Suc j" | "k \<noteq> Suc j" "l \<noteq> Suc j" by blast
      then show ?thesis
      proof cases
        case 1
        have "\<not> outOfOrder js field order (ds ! k) temp"
        proof (cases "k = j")
          case True
          then show ?thesis using st by simp
        next
          case False
          then have "k < j" using kl 1 by simp
          then have kj: "\<not> outOfOrder js field order (ds ! k) (ds ! j)" using a ji by simp
          have nn: "noNaN js field (ds ! k)" "noNaN js field (ds ! j)"
            using clean kl il ji by simp_all
          show ?thesis by (rule outOfOrder_negtrans [OF nn ct kj st])
        qed
        then show ?thesis using 1 kl il by simp
      next
        case 2
        then have "outOfOrder js field order (ds ! l) temp" using b kl by simp
        then show ?thesis using 2 kl il by (simp add: outOfOrder_asym)
      next
        case 3
        then show ?thesis using a kl by simp
      qed
    qed
    then show ?thesis unfolding R by simp
  qed
qed

lemma shell_pass_sorted:
  assumes "length (fst st) = n"
    and "\<forall>x \<in> set (fst st). noNaN js field x"
    and "\<forall>k l. k < l \<and> l < i \<longrightarrow> \<not> outOfOrder js field order (fst st ! k) (fst st ! l)"
  shows "\<forall>k l. k < l \<and> l < n \<longrightarrow>
           \<not> outOfOrder js field order (fst (shell_pass js field order n 1 i st) ! k)
                (fst (shell_pass js field order n 1 i st) ! l)"
  using assms
proof (induction js field order n "1::nat" i st rule: shell_pass.induct)
  case (1 js field order n i data comps swps)
  have len: "length data = n" and clean: "\<forall>x \<in> set data. noNaN js field x"
    and inv: "\<forall>k l. k < l \<and> l < i \<longrightarrow> \<not> outOfOrder js field order (data ! k) (data ! l)"
    using "1.prems" by simp_all
  show ?case
  proof (cases "i < n")
    case False
    have "\<forall>k l. k < l \<and> l < n \<longrightarrow> \<not> outOfOrder js field order (data ! k) (data ! l)"
      using inv False by auto
    then show ?thesis using shell_pass_done [OF False] by simp
  next
    case True
    define R where "R = shell_inner js field order 1 (getFieldValue js (data ! i) field) i (data, comps, swps)"
    obtain j d c s where r: "R = (j, d, c, s)" by (metis prod_cases4)
    have p: "j \<le> i" "length d = n" "mset (d[j := data ! i]) = mset data"
      using shell_inner_perm [of i "(data, comps, swps)" js field order 1
              "getFieldValue js (data ! i) field" "data ! i"] True len r
      unfolding R_def by simp_all
    have clean': "\<forall>x \<in> set (d[j := data ! i]). noNaN js field x"
      using clean mset_eq_setD [OF p(3)] by simp
    have "\<forall>k l. k < l \<and> l \<le> i \<longrightarrow>
           \<not> outOfOrder js field order ((fst (snd R))[fst R := data ! i] ! k)
                ((fst (snd R))[fst R := data ! i] ! l)"
      by (rule shell_inner_insert [where j = i and ds = data and comps = comps and swps = swps])
         (use True len clean inv in \<open>auto simp: R_def\<close>)
    then have inv': "\<forall>k l. k < l \<and> l < i + 1 \<longrightarrow>
           \<not> outOfOrder js field order (d[j := data ! i] ! k) (d[j := data ! i] ! l)"
      unfolding r by simp
    have "\<forall>k l. k < l \<and> l < n \<longrightarrow>
           \<not> outOfOrder js field order
               (fst (shell_pass js field order n 1 (i + 1) (d[j := data ! i], c, s)) ! k)
               (fst (shell_pass js field order n 1 (i + 1) (d[j := data ! i], c, s)) ! l)"
      by (rule "1.hyps" [OF True refl refl r [unfolded R_def, symmetric] refl refl])
         (use p clean' inv' in simp_all)
    then show ?thesis
      unfolding shell_pass_step [OF True] R_def [symmetric] r by simp
  qed
qed

lemma shell_gaps_sorted:
  assumes "length (fst st) = n" and "\<forall>x \<in> set (fst st). noNaN js field x" and "0 < gap"
  shows "\<forall>k l. k < l \<and> l < n \<longrightarrow>
           \<not> outOfOrder js field order (fst (shell_gaps js field order n gap st) ! k)
                (fst (shell_gaps js field order n gap st) ! l)"
  using assms
proof (induction js field order n gap st rule: shell_gaps.induct)
  case (1 js field order n gap st)
  let ?p = "shell_pass js field order n gap gap st"
  have p: "length (fst ?p) = n" "mset (fst ?p) = mset (fst st)"
    using shell_pass_mset [OF "1.prems"(1)] by simp_all
  have clean': "\<forall>x \<in> set (fst ?p). noNaN js field x"
    using "1.prems"(2) mset_eq_setD [OF p(2)] by simp
  have step: "shell_gaps js field order n gap st = shell_gaps js field order n (gap div 2) ?p"
    using "1.prems"(3) by (subst shell_gaps.simps) simp
  show ?case
  proof (cases "0 < gap div 2")
    case True
    show ?thesis unfolding step by (rule "1.IH" [OF "1.prems"(3) p(1) clean' True])
  next
    case False
    then have g: "gap = 1" using "1.prems"(3) by presburger
    have last: "shell_gaps js field order n (gap div 2) ?p = ?p"
      using False by (subst shell_gaps.simps) simp
    have "\<forall>k l. k < l \<and> l < n \<longrightarrow>
           \<not> outOfOrder js field order (fst (shell_pass js field order n 1 1 st) ! k)
                (fst (shell_pass js field order n 1 1 st) ! l)"
      by (rule shell_pass_sorted) (use "1.prems" in auto)
    moreover have "shell_gaps js field order n gap st = shell_pass js field order n 1 1 st"
      using step last g by simp
    ultimately show ?thesis by simp
  qed
qed

lemma shellSort_sortedData:
  "sortedData (shellSort js students field order)
     = fst (shell_gaps js field order (length students) (length students div 2) (students, 0, 0))"
  by (simp add: shellSort_def case_prod_beta)

lemma shellSort_permutation:
  "mset (sortedData (shellSort js students field order)) = mset students"
  using shell_gaps_mset [of "(students, 0, 0)" "length students" js field order "length students div 2"]
  by (simp add: shellSort_sortedData)

lemma shellSort_monotonic:
  assumes "\<forall>s \<in> set students. noNaN js field s"
  shows "monotonic js field order (sortedData (shellSort js students field order))"
proof -
  let ?n = "length students"
  let ?r = "shell_gaps js field order ?n (?n div 2) (students, 0, 0)"
  have len: "length (fst ?r) = ?n" and ms: "mset (fst ?r) = mset students"
    using shell_gaps_mset [of "(students, 0, 0)" ?n js field order "?n div 2"] by simp_all
  have "\<forall>k l. k < l \<and> l < ?n \<longrightarrow> \<not> outOfOrder js field order (fst ?r ! k) (fst ?r ! l)"
  proof (cases "0 < ?n div 2")
    case True
    show ?thesis by (rule shell_gaps_sorted) (use assms True in simp_all)
  next
    case False
    then have "?n \<le> 1" by presburger
    then show ?thesis by auto
  qed
  moreover have "\<forall>x \<in> set (fst ?r). noNaN js field x"
    using assms mset_eq_setD [OF ms] by simp
  ultimately have "monotonic js field order (fst ?r)"
    using pairwise_monotonic len by simp
  then show ?thesis by (simp add: shellSort_sortedData)
qed

text \<open>
  The inner loop of insertion sort is the loop of shell sort with gap 1, with the hole
  one place to the right of its index \<open>j\<close>.
\<close>

lemma insertion_inner_shell:
  assumes "- 1 \<le> j"
  shows "insertion_inner js field order keyValue j st
           = (int (fst (shell_inner js field order 1 keyValue (nat (j + 1)) st)) - 1,
              snd (shell_inner js field order 1 keyValue (nat (j + 1)) st))"
  using assms
proof (induction js field order keyValue j st rule: insertion_inner.induct)
  case (1 js field order keyValue j data comps swps)
  show ?case
  proof (cases "j \<ge> 0")
    case False
    then have j: "j = - 1" using "1.prems" by simp
    have "insertion_inner js field order keyValue j (data, comps, swps) = (j, data, comps, swps)"
      using False by (subst insertion_inner.simps) simp
    moreover have "shell_inner js field order 1 keyValue (nat (j + 1)) (data, comps, swps)
                     = (0, data, comps, swps)"
      using j by (simp add: shell_inner_done)
    ultimately show ?thesis using j by simp
  next
    case True
    let ?sh = "if order = Asc then js_gt (getFieldValue js (data ! nat j) field) keyValue
               else js_lt (getFieldValue js (data ! nat j) field) keyValue"
    have J: "nat (j + 1) - 1 = nat j" "0 < nat (j + 1)" "(1::nat) \<le> nat (j + 1)"
      "nat (j - 1 + 1) = nat j" "int (nat (j + 1)) - 1 = j"
      using True by simp_all
    show ?thesis
    proof (cases ?sh)
      case sh: True
      have i1: "insertion_inner js field order keyValue j (data, comps, swps)
                 = insertion_inner js field order keyValue (j - 1)
                     (data[nat (j + 1) := data ! nat j], comps + 1, swps + 1)"
        using True sh by (subst insertion_inner.simps) (simp add: Let_def)
      have s1: "shell_inner js field order 1 keyValue (nat (j + 1)) (data, comps, swps)
                 = shell_inner js field order 1 keyValue (nat j)
                     (data[nat (j + 1) := data ! nat j], comps + 1, swps + 1)"
        using J sh by (subst shell_inner.simps) (simp add: Let_def)
      have "insertion_inner js field order keyValue (j - 1)
                     (data[nat (j + 1) := data ! nat j], comps + 1, swps + 1)
             = (int (fst (shell_inner js field order 1 keyValue (nat (j - 1 + 1))
                     (data[nat (j + 1) := data ! nat j], comps + 1, swps + 1))) - 1,
                snd (shell_inner js field order 1 keyValue (nat (j - 1 + 1))
                     (data[nat (j + 1) := data ! nat j], comps + 1, swps + 1)))"
        by (rule "1.IH" [OF True refl refl sh]) (use True in simp)
      then show ?thesis unfolding i1 s1 J(4) .
    next
      case st: False
      have i1: "insertion_inner js field order keyValue j (data, comps, swps)
                 = (j, data, comps + 1, swps)"
        using True st by (subst insertion_inner.simps) (simp add: Let_def)
      have s1: "shell_inner js field order 1 keyValue (nat (j + 1)) (data, comps, swps)
                 = (nat (j + 1), data, comps + 1, swps)"
        using J st by (subst shell_inner.simps) (simp add: Let_def)
      show ?thesis unfolding i1 s1 using J(5) by simp
    qed
  qed
qed

lemma insertion_outer_shell:
  "insertion_outer js field order n i st = shell_pass js field order n 1 i st"
proof (induction js field order n i st rule: insertion_outer.induct)
  case (1 js field order n i data comps swps)
  show ?case
  proof (cases "i < n")
    case False
    then show ?thesis
      using shell_pass_done [OF False] by (subst insertion_outer.simps) simp
  next
    case True
    define R where "R = shell_inner js field order 1 (getFieldValue js (data ! i) field) i (data, comps, swps)"
    obtain j d c s where r: "R = (j, d, c, s)" by (metis prod_cases4)
    have ins: "insertion_inner js field order (getFieldValue js (data ! i) field) (int i - 1) (data, comps, swps)
                 = (int j - 1, d, c, s)"
      using insertion_inner_shell [of "int i - 1" js field order "getFieldValue js (data ! i) field"
              "(data, comps, swps)"] r
      unfolding R_def by simp
    have step: "insertion_outer js field order n i (data, comps, swps)
                  = insertion_outer js field order n (i + 1) (d[j := data ! i], c, s)"
      using True ins by (subst insertion_outer.simps) (simp add: Let_def)
    have "insertion_outer js field order n (i + 1) (d[nat (int j - 1 + 1) := data ! i], c, s)
            = shell_pass js field order n 1 (i + 1) (d[nat (int j - 1 + 1) := data ! i], c, s)"
      by (rule "1.IH" [OF True refl refl ins [symmetric] refl refl])
    then have "insertion_outer js field order n (i + 1) (d[j := data ! i], c, s)
            = shell_pass js field order n 1 (i + 1) (d[j := data ! i], c, s)"
      by simp
    then show ?thesis
      unfolding step shell_pass_step [OF True] R_def [symmetric] r by simp
  qed
qed

lemma insertionSort_sortedData:
  "sortedData (insertionSort js students field order)
     = fst (shell_pass js field order (length students) 1 1 (students, 0, 0))"
  by (simp add: insertionSort_def case_prod_beta insertion_outer_shell)

lemma insertionSort_permutation:
  "mset (sortedData (insertionSort js students field order)) = mset students"
  using shell_pass_mset [of "(students, 0, 0)" "length students" js field order 1 1]
  by (simp add: insertionSort_sortedData)

lemma insertionSort_monotonic:
  assumes "\<forall>s \<in> set students. noNaN js field s"
  shows "monotonic js field order (sortedData (insertionSort js students field order))"
proof -
  let ?n = "length students"
  let ?r = "shell_pass js field order ?n 1 1 (students, 0, 0)"
  have len: "length (fst ?r) = ?n" and ms: "mset (fst ?r) = mset students"
    using shell_pass_mset [of "(students, 0, 0)" ?n js field order 1 1] by simp_all
  have "\<forall>k l. k < l \<and> l < ?n \<longrightarrow> \<not> outOfOrder js field order (fst ?r ! k) (fst ?r ! l)"
    by (rule shell_pass_sorted) (use assms in simp_all)
  moreover have "\<forall>x \<in> set (fst ?r). noNaN js field x"
    using assms mset_eq_setD [OF ms] by simp
  ultimately have "monotonic js field order (fst ?r)"
    using pairwise_monotonic len by simp
  then show ?thesis by (simp add: insertionSort_sortedData)
qed

subsection \<open>Merge sort sorts and is stable\<close>

lemma merged_Nil2 [simp]: "merged js field order xs [] = xs"
  by (cases xs) simp_all

lemma merge_loop_merged:
  "fst (snd (snd (merge_loop js field order left right st)))
     @ drop (fst (merge_loop js field order left right st)) left
     @ drop (fst (snd (merge_loop js field order left right st))) right
   = fst (snd (snd st)) @ merged js field order (drop (fst st) left) (drop (fst (snd st)) right)"
proof (induction js field order left right st rule: merge_loop.induct)
  case (1 js field order left right leftIdx rightIdx result comps swps)
  show ?case
  proof (cases "leftIdx < length left \<and> rightIdx < length right")
    case False
    have "merge_loop js field order left right (leftIdx, rightIdx, result, comps, swps)
            = (leftIdx, rightIdx, result, comps, swps)"
      using False by (subst merge_loop.simps) auto
    moreover have "merged js field order (drop leftIdx left) (drop rightIdx right)
                     = drop leftIdx left @ drop rightIdx right"
      using False by (cases "leftIdx < length left") auto
    ultimately show ?thesis by simp
  next
    case True
    have dl: "drop leftIdx left = left ! leftIdx # drop (leftIdx + 1) left"
      and dr: "drop rightIdx right = right ! rightIdx # drop (rightIdx + 1) right"
      using True by (simp_all add: Cons_nth_drop_Suc)
    let ?lf = "if order = Asc
               then js_le (getFieldValue js (left ! leftIdx) field) (getFieldValue js (right ! rightIdx) field)
               else js_ge (getFieldValue js (left ! leftIdx) field) (getFieldValue js (right ! rightIdx) field)"
    have lf: "?lf = inOrder js field order (left ! leftIdx) (right ! rightIdx)"
      by (simp add: inOrder_def)
    show ?thesis
    proof (cases ?lf)
      case l: True
      have step: "merge_loop js field order left right (leftIdx, rightIdx, result, comps, swps)
                    = merge_loop js field order left right
                        (leftIdx + 1, rightIdx, result @ [left ! leftIdx], comps + 1, swps + 1)"
        using True l by (subst merge_loop.simps) (simp add: Let_def)
      have m: "merged js field order (drop leftIdx left) (drop rightIdx right)
                 = left ! leftIdx # merged js field order (drop (leftIdx + 1) left) (drop rightIdx right)"
      proof -
        have "merged js field order (left ! leftIdx # drop (leftIdx + 1) left)
                (right ! rightIdx # drop (rightIdx + 1) right)
              = left ! leftIdx # merged js field order (drop (leftIdx + 1) left)
                  (right ! rightIdx # drop (rightIdx + 1) right)"
          using l lf by simp
        then show ?thesis by (simp only: dl [symmetric] dr [symmetric])
      qed
      show ?thesis unfolding step using "1.IH"(1) [OF True refl refl refl l] m by simp
    next
      case r: False
      have step: "merge_loop js field order left right (leftIdx, rightIdx, result, comps, swps)
                    = merge_loop js field order left right
                        (leftIdx, rightIdx + 1, result @ [right ! rightIdx], comps + 1, swps + 1)"
        using True r by (subst merge_loop.simps) (simp add: Let_def)
      have m: "merged js field order (drop leftIdx left) (drop rightIdx right)
                 = right ! rightIdx # merged js field order (drop leftIdx left) (drop (rightIdx + 1) right)"
      proof -
        have "merged js field order (left ! leftIdx # drop (leftIdx + 1) left)
                (right ! rightIdx # drop (rightIdx + 1) right)
              = right ! rightIdx # merged js field order (left ! leftIdx # drop (leftIdx + 1) left)
                  (drop (rightIdx + 1) right)"
          using r lf by simp
        then show ?thesis by (simp only: dl [symmetric] dr [symmetric])
      qed
      show ?thesis unfolding step using "1.IH"(2) [OF True refl refl refl r] m by simp
    qed
  qed
qed

lemma mergeSort_merge_merged:
  "fst (mergeSort_merge js field order left right counters) = merged js field order left right"
  using merge_loop_merged [of js field order left right "(0, 0, [], fst counters, snd counters)"]
  by (simp add: mergeSort_merge_def case_prod_beta)

lemma mset_merged: "mset (merged js field order xs ys) = mset xs + mset ys"
  by (induction js field order xs ys rule: merged.induct) simp_all

lemma set_merged: "set (merged js field order xs ys) = set xs \<union> set ys"
  using mset_merged [of js field order xs ys] by (metis set_mset_mset set_mset_union)

lemma sorted_merged:
  assumes "sorted_wrt (\<lambda>a b. \<not> outOfOrder js field order a b) xs"
    and "sorted_wrt (\<lambda>a b. \<not> outOfOrder js field order a b) ys"
    and "\<forall>x \<in> set xs. noNaN js field x" and "\<forall>y \<in> set ys. noNaN js field y"
  shows "sorted_wrt (\<lambda>a b. \<not> outOfOrder js field order a b) (merged js field order xs ys)"
  using assms
proof (induction js field order xs ys rule: merged.induct)
  case (1 js field order ys)
  then show ?case by simp
next
  case (2 js field order v va)
  then show ?case by simp
next
  case (3 js field order x xs y ys)
  have nx: "noNaN js field x" and ny: "noNaN js field y" using "3.prems" by simp_all
  show ?case
  proof (cases "inOrder js field order x y")
    case True
    then have xy: "\<not> outOfOrder js field order x y" using inOrder_iff [OF nx ny] by simp
    have "\<forall>z \<in> set (merged js field order xs (y # ys)). \<not> outOfOrder js field order x z"
    proof
      fix z assume "z \<in> set (merged js field order xs (y # ys))"
      then consider "z \<in> set xs" | "z = y" | "z \<in> set ys" by (auto simp: set_merged)
      then show "\<not> outOfOrder js field order x z"
      proof cases
        case 1 then show ?thesis using "3.prems"(1) by simp
      next
        case 2 then show ?thesis using xy by simp
      next
        case 3
        then have "\<not> outOfOrder js field order y z" "noNaN js field z" using "3.prems"(2,4) by simp_all
        then show ?thesis using outOfOrder_negtrans [OF nx ny _ xy] by blast
      qed
    qed
    moreover have "sorted_wrt (\<lambda>a b. \<not> outOfOrder js field order a b) (merged js field order xs (y # ys))"
      by (rule "3.IH"(1) [OF True]) (use "3.prems" in simp_all)
    ultimately show ?thesis using True by simp
  next
    case False
    then have "outOfOrder js field order x y" using inOrder_iff [OF nx ny] by simp
    then have yx: "\<not> outOfOrder js field order y x" by (rule outOfOrder_asym)
    have "\<forall>z \<in> set (merged js field order (x # xs) ys). \<not> outOfOrder js field order y z"
    proof
      fix z assume "z \<in> set (merged js field order (x # xs) ys)"
      then consider "z \<in> set xs" | "z = x" | "z \<in> set ys" by (auto simp: set_merged)
      then show "\<not> outOfOrder js field order y z"
      proof cases
        case 1
        then have "\<not> outOfOrder js field order x z" "noNaN js field z" using "3.prems"(1,3) by simp_all
        then show ?thesis using outOfOrder_negtrans [OF ny nx _ yx] by blast
      next
        case 2 then show ?thesis using yx by simp
      next
        case 3 then show ?thesis using "3.prems"(2) by simp
      qed
    qed
    moreover have "sorted_wrt (\<lambda>a b. \<not> outOfOrder js field order a b) (merged js field order (x # xs) ys)"
      by (rule "3.IH"(2) [OF False]) (use "3.prems" in simp_all)
    ultimately show ?thesis using False by simp
  qed
qed

lemma filter_merged:
  assumes "sorted_wrt (\<lambda>a b. \<not> outOfOrder js field order a b) xs"
    and "\<forall>x \<in> set xs. noNaN js field x" and "\<forall>y \<in> set ys. noNaN js field y"
  shows "filter (\<lambda>s. getFieldValue js s field = v) (merged js field order xs ys)
           = filter (\<lambda>s. getFieldValue js s field = v) xs @ filter (\<lambda>s. getFieldValue js s field = v) ys"
  using assms
proof (induction js field order xs ys rule: merged.induct)
  case (1 js field order ys)
  then show ?case by simp
next
  case (2 js field order v va)
  then show ?case by simp
next
  case (3 js field order x xs y ys)
  have nx: "noNaN js field x" and ny: "noNaN js field y" using "3.prems" by simp_all
  show ?case
  proof (cases "inOrder js field order x y")
    case True
    have "filter (\<lambda>s. getFieldValue js s field = v) (merged js field order xs (y # ys))
           = filter (\<lambda>s. getFieldValue js s field = v) xs
             @ filter (\<lambda>s. getFieldValue js s field = v) (y # ys)"
      by (rule "3.IH"(1) [OF True]) (use "3.prems" in simp_all)
    then show ?thesis using True by simp
  next
    case False
    then have oo: "outOfOrder js field order x y" using inOrder_iff [OF nx ny] by simp
    have ih: "filter (\<lambda>s. getFieldValue js s field = v) (merged js field order (x # xs) ys)
           = filter (\<lambda>s. getFieldValue js s field = v) (x # xs)
             @ filter (\<lambda>s. getFieldValue js s field = v) ys"
      by (rule "3.IH"(2) [OF False]) (use "3.prems" in simp_all)
    show ?thesis
    proof (cases "getFieldValue js y field = v")
      case ky: True
      have "getFieldValue js z field \<noteq> v" if "z \<in> set (x # xs)" for z
      proof
        assume kz: "getFieldValue js z field = v"
        have "outOfOrder js field order x z"
          using oo outOfOrder_key_cong [of js x field x z y order] kz ky by simp
        moreover have "\<not> outOfOrder js field order x z"
          using that "3.prems"(1) by (auto simp: outOfOrder_irrefl)
        ultimately show False by simp
      qed
      then have "filter (\<lambda>s. getFieldValue js s field = v) (x # xs) = []"
        by (simp add: filter_empty_conv)
      then show ?thesis using False ih ky by simp
    next
      case False
      then show ?thesis using \<open>\<not> inOrder js field order x y\<close> ih by simp
    qed
  qed
qed

lemma mergeSort_sort_short:
  "length arr \<le> 1 \<Longrightarrow> mergeSort_sort js field order arr counters = (arr, fst counters, snd counters)"
  by (subst mergeSort_sort.simps) simp

lemma mergeSort_sort_split:
  "\<not> length arr \<le> 1 \<Longrightarrow>
   fst (mergeSort_sort js field order arr counters)
     = merged js field order
         (fst (mergeSort_sort js field order (take (length arr div 2) arr) counters))
         (fst (mergeSort_sort js field order (drop (length arr div 2) arr)
                (snd (mergeSort_sort js field order (take (length arr div 2) arr) counters))))"
  by (subst mergeSort_sort.simps) (simp add: Let_def case_prod_beta mergeSort_merge_merged)

lemma mergeSort_sort_mset:
  "mset (fst (mergeSort_sort js field order arr counters)) = mset arr"
proof (induction js field order arr counters rule: mergeSort_sort.induct)
  case (1 js field order arr counters)
  show ?case
  proof (cases "length arr \<le> 1")
    case True
    then show ?thesis by (simp add: mergeSort_sort_short)
  next
    case False
    define mid where "mid = length arr div 2"
    obtain left c1 s1 where l: "mergeSort_sort js field order (take mid arr) counters = (left, c1, s1)"
      by (metis prod_cases3)
    have a: "mset (fst (mergeSort_sort js field order (take mid arr) counters)) = mset (take mid arr)"
      by (rule "1.IH"(1) [OF False mid_def])
    have b: "mset (fst (mergeSort_sort js field order (drop mid arr) (c1, s1))) = mset (drop mid arr)"
      by (rule "1.IH"(2) [OF False mid_def l [symmetric] refl])
    have "mset (take mid arr) + mset (drop mid arr) = mset arr"
      by (metis append_take_drop_id mset_append)
    then show ?thesis
      using a b l unfolding mergeSort_sort_split [OF False] mid_def [symmetric]
      by (simp add: mset_merged)
  qed
qed

lemma mergeSort_sort_sorted_stable:
  assumes "\<forall>x \<in> set arr. noNaN js field x"
  shows "sorted_wrt (\<lambda>a b. \<not> outOfOrder js field order a b) (fst (mergeSort_sort js field order arr counters))
         \<and> (\<forall>v. filter (\<lambda>s. getFieldValue js s field = v) (fst (mergeSort_sort js field order arr counters))
                 = filter (\<lambda>s. getFieldValue js s field = v) arr)"
  using assms
proof (induction js field order arr counters rule: mergeSort_sort.induct)
  case (1 js field order arr counters)
  show ?case
  proof (cases "length arr \<le> 1")
    case True
    then have "arr = [] \<or> (\<exists>x. arr = [x])"
      by (cases arr) (auto simp: length_Suc_conv)
    then have "sorted_wrt (\<lambda>a b. \<not> outOfOrder js field order a b) arr" by auto
    then show ?thesis using True by (simp add: mergeSort_sort_short)
  next
    case False
    define mid where "mid = length arr div 2"
    obtain left c1 s1 where l: "mergeSort_sort js field order (take mid arr) counters = (left, c1, s1)"
      by (metis prod_cases3)
    define right where "right = fst (mergeSort_sort js field order (drop mid arr) (c1, s1))"
    have ct: "\<forall>x \<in> set (take mid arr). noNaN js field x"
      using "1.prems" by (meson in_set_takeD)
    have cd: "\<forall>x \<in> set (drop mid arr). noNaN js field x"
      using "1.prems" by (meson in_set_dropD)
    have a: "sorted_wrt (\<lambda>a b. \<not> outOfOrder js field order a b) left
         \<and> (\<forall>v. filter (\<lambda>s. getFieldValue js s field = v) left
                 = filter (\<lambda>s. getFieldValue js s field = v) (take mid arr))"
      using "1.IH"(1) [OF False mid_def ct] l by simp
    have b: "sorted_wrt (\<lambda>a b. \<not> outOfOrder js field order a b) right
         \<and> (\<forall>v. filter (\<lambda>s. getFieldValue js s field = v) right
                 = filter (\<lambda>s. getFieldValue js s field = v) (drop mid arr))"
      unfolding right_def by (rule "1.IH"(2) [OF False mid_def l [symmetric] refl cd])
    have ml: "mset left = mset (take mid arr)"
      using mergeSort_sort_mset [of js field order "take mid arr" counters] l by simp
    have mr: "mset right = mset (drop mid arr)"
      unfolding right_def by (rule mergeSort_sort_mset)
    have cl: "\<forall>x \<in> set left. noNaN js field x" using ct mset_eq_setD [OF ml] by simp
    have cr: "\<forall>x \<in> set right. noNaN js field x" using cd mset_eq_setD [OF mr] by simp
    have res: "fst (mergeSort_sort js field order arr counters) = merged js field order left right"
      unfolding mergeSort_sort_split [OF False] mid_def [symmetric] right_def using l by simp
    have s: "sorted_wrt (\<lambda>a b. \<not> outOfOrder js field order a b) (merged js field order left right)"
      using sorted_merged a b cl cr by blast
    have f: "filter (\<lambda>s. getFieldValue js s field = v) (merged js field order left right)
               = filter (\<lambda>s. getFieldValue js s field = v) arr" for v
    proof -
      have "filter (\<lambda>s. getFieldValue js s field = v) (merged js field order left right)
              = filter (\<lambda>s. getFieldValue js s field = v) left
                @ filter (\<lambda>s. getFieldValue js s field = v) right"
        using filter_merged a cl cr by blast
      also have "\<dots> = filter (\<lambda>s. getFieldValue js s field = v) (take mid arr)
                       @ filter (\<lambda>s. getFieldValue js s field = v) (drop mid arr)"
        using a b by simp
      also have "\<dots> = filter (\<lambda>s. getFieldValue js s field = v) arr"
        by (metis append_take_drop_id filter_append)
      finally show ?thesis .
    qed
    show ?thesis unfolding res using s f by simp
  qed
qed

lemma mergeSort_sortedData:
  "sortedData (mergeSort js students field order) = fst (mergeSort_sort js field order students (0, 0))"
  by (simp add: mergeSort_def case_prod_beta)

lemma mergeSort_permutation:
  "mset (sortedData (mergeSort js students field order)) = mset students"
  by (simp add: mergeSort_sortedData mergeSort_sort_mset)

lemma sorted_wrt_monotonic:
  assumes "\<forall>x \<in> set ds. noNaN js field x"
    and "sorted_wrt (\<lambda>a b. \<not> outOfOrder js field order a b) ds"
  shows "monotonic js field order ds"
  unfolding monotonic_def
  by (rule sorted_wrt_mono_rel [OF _ assms(2)]) (use assms(1) inOrder_iff in simp)

lemma mergeSort_monotonic:
  assumes "\<forall>s \<in> set students. noNaN js field s"
  shows "monotonic js field order (sortedData (mergeSort js students field order))"
proof -
  have "\<forall>x \<in> set (sortedData (mergeSort js students field order)). noNaN js field x"
    using assms mset_eq_setD [OF mergeSort_permutation] by simp
  then show ?thesis
    using mergeSort_sort_sorted_stable [OF assms] sorted_wrt_monotonic
    by (simp add: mergeSort_sortedData)
qed

lemma mergeSort_sameKeyOrder:
  assumes "\<forall>s \<in> set students. noNaN js field s"
  shows "sameKeyOrder js field students (sortedData (mergeSort js students field order))"
  using mergeSort_sort_sorted_stable [OF assms]
  by (simp add: sameKeyOrder_def mergeSort_sortedData)

subsection \<open>The five sorts: permutation, order, stability\<close>

text \<open>
  C1, as stated, fails on a collection with a \<open>NaN\<close> key: every comparison with \<open>NaN\<close>
  is false, so \<open>bubbleSort\<close> by \<open>ipk\<close> ascending swaps nothing in the records with keys
  3, \<open>NaN\<close>, 1 and returns them as they are, the 3 before the 1.
\<close>

theorem sorts_counterexample_NaN:
  "map ipk nanRoster = [Finite 3, NaN, Finite 1]
   \<and> sortedData (bubbleSort plainPlatform nanRoster Sort_ipk Asc) = nanRoster
   \<and> num_lt (ipk (nanRoster ! 2)) (ipk (nanRoster ! 0))
   \<and> \<not> inOrder plainPlatform Sort_ipk Asc (nanRoster ! 0) (nanRoster ! 2)
   \<and> \<not> monotonic plainPlatform Sort_ipk Asc
         (sortedData (bubbleSort plainPlatform nanRoster Sort_ipk Asc))"
  by code_simp

text \<open>
  C1, amended: for every collection, field and order, the \<open>sortedData\<close> of each of the
  five sorts has the length of the input and the same records with the same
  multiplicities; and when no key of the input is \<open>NaN\<close> it is monotonic in the order
  asked for, under the comparison rule of \<open>sortKey\<close>.
\<close>

theorem sorts_permutation_monotonic:
  assumes "algorithm \<in> {bubbleSort, selectionSort, insertionSort, shellSort, mergeSort}"
  shows "length (sortedData (algorithm js students field order)) = length students
         \<and> mset (sortedData (algorithm js students field order)) = mset students
         \<and> ((\<forall>s \<in> set students. noNaN js field s) \<longrightarrow>
               monotonic js field order (sortedData (algorithm js students field order)))"
proof -
  have m: "mset (sortedData (algorithm js students field order)) = mset students"
    using assms bubbleSort_permutation selectionSort_permutation insertionSort_permutation
      shellSort_permutation mergeSort_permutation by auto
  have "monotonic js field order (sortedData (algorithm js students field order))"
    if "\<forall>s \<in> set students. noNaN js field s"
    using assms that bubbleSort_monotonic selectionSort_monotonic insertionSort_monotonic
      shellSort_monotonic mergeSort_monotonic by auto
  then show ?thesis using m mset_eq_length [OF m] by simp
qed

lemma tiedRoster_noNaN: "\<forall>s \<in> set tiedRoster. noNaN plainPlatform Sort_ipk s"
  by code_simp

theorem sorts_permutation_monotonic_witness:
  "mset (sortedData (shellSort plainPlatform tiedRoster Sort_ipk Desc)) = mset tiedRoster
   \<and> monotonic plainPlatform Sort_ipk Desc
       (sortedData (shellSort plainPlatform tiedRoster Sort_ipk Desc))
   \<and> map student_id (sortedData (shellSort plainPlatform tiedRoster Sort_ipk Desc))
       = [str ''b'', str ''a'', str ''c'']"
proof -
  have "shellSort \<in> {bubbleSort, selectionSort, insertionSort, shellSort, mergeSort}" by simp
  from sorts_permutation_monotonic [OF this, of plainPlatform tiedRoster Sort_ipk Desc]
    tiedRoster_noNaN
  have "mset (sortedData (shellSort plainPlatform tiedRoster Sort_ipk Desc)) = mset tiedRoster
        \<and> monotonic plainPlatform Sort_ipk Desc
            (sortedData (shellSort plainPlatform tiedRoster Sort_ipk Desc))"
    by blast
  moreover have "map student_id (sortedData (shellSort plainPlatform tiedRoster Sort_ipk Desc))
       = [str ''b'', str ''a'', str ''c'']"
    by code_simp
  ultimately show ?thesis by blast
qed

text \<open>
  C2, as stated, fails on a collection with a \<open>NaN\<close> key: of the records \<open>a\<close>, \<open>b\<close>, \<open>c\<close>,
  \<open>d\<close> with keys 1, \<open>NaN\<close>, 1, 5, \<open>mergeSort\<close> ascending returns \<open>c\<close>, \<open>d\<close>, \<open>b\<close>, \<open>a\<close>:
  the records \<open>a\<close> and \<open>c\<close> have equal keys and change places.
\<close>

theorem mergeSort_unstable_NaN:
  "map student_id nanTiedRoster = [str ''a'', str ''b'', str ''c'', str ''d'']
   \<and> map student_id (sortedData (mergeSort plainPlatform nanTiedRoster Sort_ipk Asc))
       = [str ''c'', str ''d'', str ''b'', str ''a'']
   \<and> ipk (nanTiedRoster ! 0) = Finite 1 \<and> ipk (nanTiedRoster ! 2) = Finite 1
   \<and> \<not> sameKeyOrder plainPlatform Sort_ipk nanTiedRoster
         (sortedData (mergeSort plainPlatform nanTiedRoster Sort_ipk Asc))"
proof -
  have a: "map student_id nanTiedRoster = [str ''a'', str ''b'', str ''c'', str ''d'']"
    by code_simp
  have b: "map student_id (sortedData (mergeSort plainPlatform nanTiedRoster Sort_ipk Asc))
       = [str ''c'', str ''d'', str ''b'', str ''a'']"
    by code_simp
  have c: "ipk (nanTiedRoster ! 0) = Finite 1 \<and> ipk (nanTiedRoster ! 2) = Finite 1"
    by code_simp
  have d: "filter (\<lambda>s. sortKey plainPlatform Sort_ipk s = NumV (Finite 1))
             (sortedData (mergeSort plainPlatform nanTiedRoster Sort_ipk Asc))
           \<noteq> filter (\<lambda>s. sortKey plainPlatform Sort_ipk s = NumV (Finite 1)) nanTiedRoster"
    by code_simp
  have "\<not> sameKeyOrder plainPlatform Sort_ipk nanTiedRoster
           (sortedData (mergeSort plainPlatform nanTiedRoster Sort_ipk Asc))"
    unfolding sameKeyOrder_def using d by blast
  then show ?thesis using a b c by blast
qed

lemma mergeSort_merge_tie:
  assumes "inOrder js field order a b"
  shows "fst (mergeSort_merge js field order [a] [b] c) = [a, b]"
  using assms by (simp add: mergeSort_merge_merged)

text \<open>
  C2, amended: for every collection none of whose keys is \<open>NaN\<close>, every field and both
  orders, the records with any one key stand in the \<open>sortedData\<close> of \<open>mergeSort\<close> in the
  order they have in the input; and the merge of two records with equal keys emits
  the left one first.
\<close>

theorem mergeSort_stable:
  assumes "\<forall>s \<in> set students. noNaN js field s"
  shows "sameKeyOrder js field students (sortedData (mergeSort js students field order))
         \<and> (\<forall>a b c. noNaN js field a \<and> sortKey js field a = sortKey js field b \<longrightarrow>
                fst (mergeSort_merge js field order [a] [b] c) = [a, b])"
proof -
  have "inOrder js field order a b"
    if "noNaN js field a" "sortKey js field a = sortKey js field b" for a b
  proof -
    have "noNaN js field b" using that by (simp add: noNaN_def)
    have "outOfOrder js field order a b = outOfOrder js field order a a"
      by (rule outOfOrder_key_cong) (use that(2) in simp_all)
    then have "\<not> outOfOrder js field order a b"
      by (simp add: outOfOrder_irrefl)
    then show ?thesis
      using inOrder_iff [OF that(1) \<open>noNaN js field b\<close>] by simp
  qed
  then show ?thesis
    using mergeSort_sameKeyOrder [OF assms] mergeSort_merge_tie by blast
qed

theorem mergeSort_stable_witness:
  "sameKeyOrder plainPlatform Sort_ipk tiedRoster
     (sortedData (mergeSort plainPlatform tiedRoster Sort_ipk Desc))
   \<and> map student_id (sortedData (mergeSort plainPlatform tiedRoster Sort_ipk Desc))
       = [str ''b'', str ''a'', str ''c'']
   \<and> sameKeyOrder plainPlatform Sort_ipk tiedRoster
       (sortedData (mergeSort plainPlatform tiedRoster Sort_ipk Asc))
   \<and> map student_id (sortedData (mergeSort plainPlatform tiedRoster Sort_ipk Asc))
       = [str ''a'', str ''c'', str ''b'']
   \<and> fst (mergeSort_merge plainPlatform Sort_ipk Desc [tiedRoster ! 0] [tiedRoster ! 2] (0, 0))
       = [tiedRoster ! 0, tiedRoster ! 2]"
proof -
  have ids: "map student_id (sortedData (mergeSort plainPlatform tiedRoster Sort_ipk Desc))
       = [str ''b'', str ''a'', str ''c'']"
    "map student_id (sortedData (mergeSort plainPlatform tiedRoster Sort_ipk Asc))
       = [str ''a'', str ''c'', str ''b'']"
    by code_simp+
  have tie: "noNaN plainPlatform Sort_ipk (tiedRoster ! 0)
     \<and> sortKey plainPlatform Sort_ipk (tiedRoster ! 0)
         = sortKey plainPlatform Sort_ipk (tiedRoster ! 2)"
    by code_simp
  show ?thesis
    using mergeSort_stable [OF tiedRoster_noNaN, of Desc]
      mergeSort_stable [OF tiedRoster_noNaN, of Asc] ids tie
    by blast
qed

subsection \<open>Bubble sort on a three-record collection\<close>

text \<open>
  C9: on three records with \<open>ipk\<close> values 3.0, 2.0 and 3.5 (everything else arbitrary),
  \<open>bubbleSort\<close> by \<open>ipk\<close> ascending returns them in the order 2.0, 3.0, 3.5 with
  3 comparisons (and 1 swap). The first pass makes 2 comparisons and swaps; the second
  pass makes 1 comparison and ends with \<open>swapped = false\<close>. What the outer loop does
  with that flag is the last two conjuncts, for any collection: after a pass that did
  not swap it returns the state the pass left, running no further pass, and after a
  pass that swapped it goes on with the next pass.
\<close>

theorem bubbleSort_scenario:
  "bubbleSort js [a\<lparr>ipk := Finite 3\<rparr>, b\<lparr>ipk := Finite 2\<rparr>, c\<lparr>ipk := Finite (7 / 2)\<rparr>]
       Sort_ipk Asc
     = \<lparr>sortedData = [b\<lparr>ipk := Finite 2\<rparr>, a\<lparr>ipk := Finite 3\<rparr>, c\<lparr>ipk := Finite (7 / 2)\<rparr>],
        sortResult.comparisons = 3, swaps = 1\<rparr>
   \<and> bubble_inner js Sort_ipk Asc 3 0 0
         ([a\<lparr>ipk := Finite 3\<rparr>, b\<lparr>ipk := Finite 2\<rparr>, c\<lparr>ipk := Finite (7 / 2)\<rparr>], 0, 0, False)
       = ([b\<lparr>ipk := Finite 2\<rparr>, a\<lparr>ipk := Finite 3\<rparr>, c\<lparr>ipk := Finite (7 / 2)\<rparr>], 2, 1, True)
   \<and> bubble_inner js Sort_ipk Asc 3 1 0
         ([b\<lparr>ipk := Finite 2\<rparr>, a\<lparr>ipk := Finite 3\<rparr>, c\<lparr>ipk := Finite (7 / 2)\<rparr>], 2, 1, False)
       = ([b\<lparr>ipk := Finite 2\<rparr>, a\<lparr>ipk := Finite 3\<rparr>, c\<lparr>ipk := Finite (7 / 2)\<rparr>], 3, 1, False)
   \<and> (i < n - 1
        \<and> bubble_inner js field order n i 0 (ds, cs, ss, False) = (ds', cs', ss', False) \<longrightarrow>
          bubble_outer js field order n i (ds, cs, ss) = (ds', cs', ss'))
   \<and> (i < n - 1
        \<and> bubble_inner js field order n i 0 (ds, cs, ss, False) = (ds', cs', ss', True) \<longrightarrow>
          bubble_outer js field order n i (ds, cs, ss)
            = bubble_outer js field order n (i + 1) (ds', cs', ss'))"
proof -
  have scenario:
    "bubbleSort js [a\<lparr>ipk := Finite 3\<rparr>, b\<lparr>ipk := Finite 2\<rparr>, c\<lparr>ipk := Finite (7 / 2)\<rparr>]
         Sort_ipk Asc
       = \<lparr>sortedData = [b\<lparr>ipk := Finite 2\<rparr>, a\<lparr>ipk := Finite 3\<rparr>, c\<lparr>ipk := Finite (7 / 2)\<rparr>],
          sortResult.comparisons = 3, swaps = 1\<rparr>"
    by (simp add: bubbleSort_def js_gt_def bubble_inner.simps bubble_outer.simps)
  have first:
    "bubble_inner js Sort_ipk Asc 3 0 0
         ([a\<lparr>ipk := Finite 3\<rparr>, b\<lparr>ipk := Finite 2\<rparr>, c\<lparr>ipk := Finite (7 / 2)\<rparr>], 0, 0, False)
       = ([b\<lparr>ipk := Finite 2\<rparr>, a\<lparr>ipk := Finite 3\<rparr>, c\<lparr>ipk := Finite (7 / 2)\<rparr>], 2, 1, True)"
    by (simp add: js_gt_def bubble_inner.simps)
  have second:
    "bubble_inner js Sort_ipk Asc 3 1 0
         ([b\<lparr>ipk := Finite 2\<rparr>, a\<lparr>ipk := Finite 3\<rparr>, c\<lparr>ipk := Finite (7 / 2)\<rparr>], 2, 1, False)
       = ([b\<lparr>ipk := Finite 2\<rparr>, a\<lparr>ipk := Finite 3\<rparr>, c\<lparr>ipk := Finite (7 / 2)\<rparr>], 3, 1, False)"
    by (simp add: js_gt_def bubble_inner.simps)
  have exit: "bubble_outer js field order n i (ds, cs, ss) = (ds', cs', ss')"
    if "i < n - 1" "bubble_inner js field order n i 0 (ds, cs, ss, False) = (ds', cs', ss', False)"
    using that by (simp add: bubble_outer_unfold)
  have continue: "bubble_outer js field order n i (ds, cs, ss)
            = bubble_outer js field order n (i + 1) (ds', cs', ss')"
    if "i < n - 1" "bubble_inner js field order n i 0 (ds, cs, ss, False) = (ds', cs', ss', True)"
    using that by (simp add: bubble_outer_unfold)
  show ?thesis using scenario first second exit continue by blast
qed

text \<open>
  The early exit at work: of four records with keys 2, 1, 3, 4 the first pass (three
  comparisons) swaps the first two; the second pass (two comparisons) does not swap,
  and the sort ends after it with 5 comparisons, a third pass being due otherwise.
\<close>

theorem bubbleSort_scenario_witness:
  "(1::nat) < 4 - 1
   \<and> bubble_inner plainPlatform Sort_ipk Asc 4 1 0
        ([fourRoster ! 1, fourRoster ! 0, fourRoster ! 2, fourRoster ! 3], 3, 1, False)
      = ([fourRoster ! 1, fourRoster ! 0, fourRoster ! 2, fourRoster ! 3], 5, 1, False)
   \<and> bubble_outer plainPlatform Sort_ipk Asc 4 1
        ([fourRoster ! 1, fourRoster ! 0, fourRoster ! 2, fourRoster ! 3], 3, 1)
      = ([fourRoster ! 1, fourRoster ! 0, fourRoster ! 2, fourRoster ! 3], 5, 1)
   \<and> bubbleSort plainPlatform fourRoster Sort_ipk Asc
      = \<lparr>sortedData = [fourRoster ! 1, fourRoster ! 0, fourRoster ! 2, fourRoster ! 3],
         sortResult.comparisons = 5, swaps = 1\<rparr>"
proof -
  have pass: "bubble_inner plainPlatform Sort_ipk Asc 4 1 0
        ([fourRoster ! 1, fourRoster ! 0, fourRoster ! 2, fourRoster ! 3], 3, 1, False)
      = ([fourRoster ! 1, fourRoster ! 0, fourRoster ! 2, fourRoster ! 3], 5, 1, False)"
    by code_simp
  have sort: "bubbleSort plainPlatform fourRoster Sort_ipk Asc
      = \<lparr>sortedData = [fourRoster ! 1, fourRoster ! 0, fourRoster ! 2, fourRoster ! 3],
         sortResult.comparisons = 5, swaps = 1\<rparr>"
    by code_simp
  have "bubble_outer plainPlatform Sort_ipk Asc 4 1
        ([fourRoster ! 1, fourRoster ! 0, fourRoster ! 2, fourRoster ! 3], 3, 1)
      = ([fourRoster ! 1, fourRoster ! 0, fourRoster ! 2, fourRoster ! 3], 5, 1)"
    using bubbleSort_scenario
            [of plainPlatform _ _ _ 1 4 Sort_ipk Asc
                "[fourRoster ! 1, fourRoster ! 0, fourRoster ! 2, fourRoster ! 3]" 3 1
                "[fourRoster ! 1, fourRoster ! 0, fourRoster ! 2, fourRoster ! 3]" 5 1]
      pass by simp
  then show ?thesis using pass sort by simp
qed

subsection \<open>Linear search with the empty query\<close>

lemma str_includes_empty: "str_includes s []"
  by (induction s) auto

lemma toLowerCase_empty: "toLowerCase js [] = []"
  by (simp add: toLowerCase_def isAscii_def)

text \<open>
  C10: on a collection that is not empty, \<open>linearSearch\<close> with the empty string as query
  finds the first record (index 0) after one comparison, whatever the field; on the
  empty collection every query gives \<open>found = false\<close>, \<open>index = -1\<close>, no record, and 0
  comparisons.
\<close>

theorem linearSearch_empty_query:
  "(students \<noteq> [] \<longrightarrow>
      linearSearch js students [] field
        = \<lparr>found = True, index = 0, student = Some (students ! 0), comparisons = 1\<rparr>)
   \<and> linearSearch js [] searchValue field
        = \<lparr>found = False, index = - 1, student = None, comparisons = 0\<rparr>"
  by (simp add: linearSearch_def toLowerCase_empty str_includes_empty)

theorem linearSearch_empty_query_witness:
  "[exampleStudent] \<noteq> []
   \<and> linearSearch plainPlatform [exampleStudent] [] Search_nama
        = \<lparr>found = True, index = 0, student = Some exampleStudent, comparisons = 1\<rparr>
   \<and> linearSearch plainPlatform [] (str ''budi'') Search_nama
        = \<lparr>found = False, index = - 1, student = None, comparisons = 0\<rparr>"
  using linearSearch_empty_query [of "[exampleStudent]" plainPlatform Search_nama "str ''budi''"]
  by simp

subsection \<open>Binary search on a sorted collection\<close>

lemma sortedByField_nth:
  assumes "sortedByField js students field" and "i \<le> j" and "j < length students"
  shows "toLowerCase js (fieldOf (students ! i) field) \<le> toLowerCase js (fieldOf (students ! j) field)"
proof -
  have "map (\<lambda>s. toLowerCase js (fieldOf s field)) students ! i
          \<le> map (\<lambda>s. toLowerCase js (fieldOf s field)) students ! j"
    using assms unfolding sortedByField_def by (intro sorted_nth_mono) auto
  then show ?thesis using assms by simp
qed

lemma binarySearch_loop_correct:
  assumes "sortedByField js students field"
    and "0 \<le> left" and "right < int (length students)"
    and "\<forall>k. int k < left \<longrightarrow> k < length students \<longrightarrow> toLowerCase js (fieldOf (students ! k) field) < toLowerCase js searchValue"
    and "\<forall>k. right < int k \<longrightarrow> k < length students \<longrightarrow> toLowerCase js searchValue < toLowerCase js (fieldOf (students ! k) field)"
  shows "\<exists>r. binarySearch_loop js students searchValue field left right comps = Inr r
           \<and> (if found r
               then 0 \<le> index r \<and> index r < int (length students)
                    \<and> toLowerCase js (fieldOf (students ! nat (index r)) field) = toLowerCase js searchValue
                    \<and> student r = Some (students ! nat (index r))
               else index r = - 1 \<and> student r = None
                    \<and> (\<forall>k < length students. toLowerCase js (fieldOf (students ! k) field) \<noteq> toLowerCase js searchValue))"
  using assms
proof (induction js students searchValue field left right comps rule: binarySearch_loop.induct)
  case (1 js students searchValue field left right comps)
  let ?K = "\<lambda>k. toLowerCase js (fieldOf (students ! k) field)"
  let ?q = "toLowerCase js searchValue"
  show ?case
  proof (cases "left \<le> right")
    case False
    have "\<forall>k < length students. ?K k \<noteq> ?q"
    proof (intro allI impI)
      fix k assume k: "k < length students"
      show "?K k \<noteq> ?q"
      proof (cases "int k < left")
        case True
        then show ?thesis using "1.prems"(4) k by fastforce
      next
        case False
        then have "right < int k" using \<open>\<not> left \<le> right\<close> by linarith
        then show ?thesis using "1.prems"(5) k by fastforce
      qed
    qed
    then show ?thesis using False by simp
  next
    case True
    define mid where "mid = (left + right) div 2"
    have mid: "left \<le> mid" "mid \<le> right" using True unfolding mid_def by linarith+
    then have inr: "0 \<le> mid" "mid < int (length students)" using "1.prems"(2,3) by linarith+
    have natmid: "nat mid < length students" using inr by linarith
    consider (eq) "?K (nat mid) = ?q" | (lt) "?K (nat mid) \<noteq> ?q" "?K (nat mid) < ?q"
      | (gt) "?K (nat mid) \<noteq> ?q" "\<not> ?K (nat mid) < ?q" by blast
    then show ?thesis
    proof cases
      case eq
      then show ?thesis using True inr by (simp add: mid_def [symmetric] Let_def)
    next
      case lt
      have below: "\<forall>k. int k < mid + 1 \<longrightarrow> k < length students \<longrightarrow> ?K k < ?q"
      proof (intro allI impI)
        fix k assume "int k < mid + 1" and k: "k < length students"
        then have "k \<le> nat mid" by linarith
        then have "?K k \<le> ?K (nat mid)"
          using sortedByField_nth [OF "1.prems"(1) _ natmid] by blast
        then show "?K k < ?q" using lt(2) by simp
      qed
      have "\<exists>r. binarySearch_loop js students searchValue field (mid + 1) right (comps + 1) = Inr r
           \<and> (if found r
               then 0 \<le> index r \<and> index r < int (length students)
                    \<and> ?K (nat (index r)) = ?q
                    \<and> student r = Some (students ! nat (index r))
               else index r = - 1 \<and> student r = None
                    \<and> (\<forall>k < length students. ?K k \<noteq> ?q))"
        by (rule "1.IH"(1) [OF True mid_def _ refl refl lt(1) lt(2) "1.prems"(1) _ "1.prems"(3)
              below "1.prems"(5)]) (use inr in auto)
      then show ?thesis using True inr lt by (simp add: mid_def [symmetric] Let_def)
    next
      case gt
      then have gt': "?q < ?K (nat mid)" by simp
      have above: "\<forall>k. mid - 1 < int k \<longrightarrow> k < length students \<longrightarrow> ?q < ?K k"
      proof (intro allI impI)
        fix k assume "mid - 1 < int k" and k: "k < length students"
        then have "nat mid \<le> k" by linarith
        then have "?K (nat mid) \<le> ?K k"
          using sortedByField_nth [OF "1.prems"(1) _ k] by blast
        then show "?q < ?K k" using gt' by simp
      qed
      have "\<exists>r. binarySearch_loop js students searchValue field left (mid - 1) (comps + 1) = Inr r
           \<and> (if found r
               then 0 \<le> index r \<and> index r < int (length students)
                    \<and> ?K (nat (index r)) = ?q
                    \<and> student r = Some (students ! nat (index r))
               else index r = - 1 \<and> student r = None
                    \<and> (\<forall>k < length students. ?K k \<noteq> ?q))"
        by (rule "1.IH"(2) [OF True mid_def _ refl refl gt(1) gt(2) "1.prems"(1) "1.prems"(2) _
              "1.prems"(4) above]) (use inr in auto)
      then show ?thesis using True inr gt by (simp add: mid_def [symmetric] Let_def)
    qed
  qed
qed

text \<open>
  C3: on a collection sorted ascending by the lower-cased field, \<open>binarySearch\<close> returns
  a result (it does not throw); when some record's lower-cased field equals the
  lower-cased query, the result has \<open>found = true\<close>, an index inside the collection
  whose record matches the query in that way, and that record as \<open>student\<close>; when no
  record does, the result has \<open>found = false\<close>, \<open>index = -1\<close> and no record.
\<close>

theorem binarySearch_correct:
  assumes "sortedByField js students field"
  shows "\<exists>r. binarySearch js students searchValue field = Inr r
           \<and> ((\<exists>s \<in> set students. toLowerCase js (fieldOf s field) = toLowerCase js searchValue) \<longrightarrow>
                 found r \<and> 0 \<le> index r \<and> index r < int (length students)
                 \<and> toLowerCase js (fieldOf (students ! nat (index r)) field) = toLowerCase js searchValue
                 \<and> student r = Some (students ! nat (index r)))
           \<and> ((\<forall>s \<in> set students. toLowerCase js (fieldOf s field) \<noteq> toLowerCase js searchValue) \<longrightarrow>
                 \<not> found r \<and> index r = - 1 \<and> student r = None)"
proof -
  obtain r where r: "binarySearch js students searchValue field = Inr r"
    and rr: "if found r
             then 0 \<le> index r \<and> index r < int (length students)
                  \<and> toLowerCase js (fieldOf (students ! nat (index r)) field) = toLowerCase js searchValue
                  \<and> student r = Some (students ! nat (index r))
             else index r = - 1 \<and> student r = None
                  \<and> (\<forall>k < length students. toLowerCase js (fieldOf (students ! k) field) \<noteq> toLowerCase js searchValue)"
    using binarySearch_loop_correct [OF assms, of 0 "int (length students) - 1" searchValue 0]
    unfolding binarySearch_def by auto
  have present: "found r"
    if "\<exists>s \<in> set students. toLowerCase js (fieldOf s field) = toLowerCase js searchValue"
  proof (rule ccontr)
    assume "\<not> found r"
    then have "\<forall>k < length students. toLowerCase js (fieldOf (students ! k) field) \<noteq> toLowerCase js searchValue"
      using rr by simp
    then show False using that by (metis in_set_conv_nth)
  qed
  have absent: "\<not> found r"
    if "\<forall>s \<in> set students. toLowerCase js (fieldOf s field) \<noteq> toLowerCase js searchValue"
  proof
    assume "found r"
    then have "nat (index r) < length students"
      and "toLowerCase js (fieldOf (students ! nat (index r)) field) = toLowerCase js searchValue"
      using rr by auto
    then show False using that nth_mem by blast
  qed
  show ?thesis using r rr present absent by (intro exI [of _ r]) auto
qed
lemma exampleRoster_sorted: "sortedByField plainPlatform exampleRoster Search_nama"
  by code_simp

theorem binarySearch_correct_witness:
  "sortedByField plainPlatform exampleRoster Search_nama
   \<and> (\<exists>r. binarySearch plainPlatform exampleRoster (str ''BUDI SANTOSO'') Search_nama = Inr r
          \<and> found r \<and> student r = Some (exampleRoster ! nat (index r))
          \<and> toLowerCase plainPlatform (nama (exampleRoster ! nat (index r)))
              = toLowerCase plainPlatform (str ''BUDI SANTOSO'')
          \<and> nama (exampleRoster ! nat (index r)) = str ''Budi Santoso'')
   \<and> (\<exists>r. binarySearch plainPlatform exampleRoster (str ''Dewi'') Search_nama = Inr r
          \<and> \<not> found r \<and> index r = - 1 \<and> student r = None)"
proof -
  have p: "\<exists>s \<in> set exampleRoster.
             toLowerCase plainPlatform (fieldOf s Search_nama)
               = toLowerCase plainPlatform (str ''BUDI SANTOSO'')"
    by code_simp
  have a: "\<forall>s \<in> set exampleRoster.
             toLowerCase plainPlatform (fieldOf s Search_nama)
               \<noteq> toLowerCase plainPlatform (str ''Dewi'')"
    by code_simp
  have u: "\<forall>s \<in> set exampleRoster.
             toLowerCase plainPlatform (nama s) = toLowerCase plainPlatform (str ''BUDI SANTOSO'')
             \<longrightarrow> nama s = str ''Budi Santoso''"
    by code_simp
  obtain r where r: "binarySearch plainPlatform exampleRoster (str ''BUDI SANTOSO'') Search_nama
                       = Inr r"
    and f: "found r" "0 \<le> index r" "index r < int (length exampleRoster)"
      "toLowerCase plainPlatform (fieldOf (exampleRoster ! nat (index r)) Search_nama)
         = toLowerCase plainPlatform (str ''BUDI SANTOSO'')"
      "student r = Some (exampleRoster ! nat (index r))"
    using binarySearch_correct [OF exampleRoster_sorted, of "str ''BUDI SANTOSO''"] p by blast
  have "exampleRoster ! nat (index r) \<in> set exampleRoster"
    using f(2,3) by (intro nth_mem) linarith
  then have "nama (exampleRoster ! nat (index r)) = str ''Budi Santoso''"
    using u f(4) by simp
  then have one: "\<exists>r. binarySearch plainPlatform exampleRoster (str ''BUDI SANTOSO'') Search_nama
                        = Inr r
          \<and> found r \<and> student r = Some (exampleRoster ! nat (index r))
          \<and> toLowerCase plainPlatform (nama (exampleRoster ! nat (index r)))
              = toLowerCase plainPlatform (str ''BUDI SANTOSO'')
          \<and> nama (exampleRoster ! nat (index r)) = str ''Budi Santoso''"
    using r f by auto
  have two: "\<exists>r. binarySearch plainPlatform exampleRoster (str ''Dewi'') Search_nama = Inr r
          \<and> \<not> found r \<and> index r = - 1 \<and> student r = None"
    using binarySearch_correct [OF exampleRoster_sorted, of "str ''Dewi''"] a by blast
  show ?thesis using one two exampleRoster_sorted by blast
qed

subsection \<open>The validators and the rules of the fields\<close>

lemma trim_Nil_iff: "(trim s = []) = blank s"
proof
  assume "trim s = []"
  then have all: "\<forall>x \<in> set (dropWhile isWhiteSpace s). isWhiteSpace x"
    by (simp add: trim_def dropWhile_eq_Nil_conv)
  have "dropWhile isWhiteSpace s = []"
  proof (rule ccontr)
    assume ne: "dropWhile isWhiteSpace s \<noteq> []"
    then have "\<not> isWhiteSpace (hd (dropWhile isWhiteSpace s))" by (rule hd_dropWhile)
    moreover have "hd (dropWhile isWhiteSpace s) \<in> set (dropWhile isWhiteSpace s)"
      using ne by simp
    ultimately show False using all by blast
  qed
  then show "blank s" by (auto simp: blank_def dropWhile_eq_Nil_conv)
next
  assume "blank s"
  then have "dropWhile isWhiteSpace s = []"
    by (auto simp: blank_def dropWhile_eq_Nil_conv)
  then show "trim s = []" by (auto simp: trim_def dest: set_dropWhileD)
qed

lemma emptyText_iff: "emptyText (Some s) = blank s"
  using trim_Nil_iff [of s] by (auto simp: blank_def)

lemma isLetter_iff: "isLetter c = letter c"
  by (auto simp: isLetter_def inRange_def letter_def)

lemma isDigit_iff: "isDigit c = digit c"
  by (auto simp: isDigit_def inRange_def digit_def)

lemma validateNIM_iff: "isValid (validateNIM (Some s)) = (\<not> blank s \<and> length s \<le> 50)"
  by (simp add: validateNIM_def emptyText_iff del: emptyText.simps)

lemma validateNama_iff:
  "isValid (validateNama (Some s))
     = (\<not> blank s \<and> 2 \<le> length s \<and> length s \<le> 100
        \<and> set s \<subseteq> {c. letter c \<or> isWhiteSpace c})"
  by (auto simp: validateNama_def emptyText_iff regex_NAMA_def list_all_iff isLetter_iff Let_def
        simp del: emptyText.simps)

lemma validateJurusan_iff:
  "isValid (validateJurusan (Some s))
     = (\<not> blank s \<and> 2 \<le> length s \<and> length s \<le> 50
        \<and> set s \<subseteq> {c. letter c \<or> isWhiteSpace c})"
  by (auto simp: validateJurusan_def emptyText_iff regex_JURUSAN_def list_all_iff isLetter_iff
        Let_def simp del: emptyText.simps)

lemma validateSemester_iff: "isValid (validateSemester (Some x)) = wholeIn x 1 14"
proof (cases x)
  case (Finite q)
  show ?thesis
  proof
    assume v: "isValid (validateSemester (Some x))"
    then have q: "q = of_int \<lfloor>q\<rfloor>" "\<not> q < 1" "\<not> 14 < q"
      using Finite by (auto simp: validateSemester_def split: if_splits)
    then have "1 \<le> \<lfloor>q\<rfloor>" "\<lfloor>q\<rfloor> \<le> 14" by linarith+
    then show "wholeIn x 1 14" unfolding wholeIn_def using Finite q(1) by blast
  next
    assume "wholeIn x 1 14"
    then obtain n where n: "q = of_int n" "1 \<le> n" "n \<le> 14"
      using Finite by (auto simp: wholeIn_def)
    then show "isValid (validateSemester (Some x))"
      using Finite by (simp add: validateSemester_def)
  qed
qed (simp_all add: validateSemester_def wholeIn_def)

lemma validateIPK_iff: "isValid (validateIPK (Some x)) = numberIn x 0 4"
  by (cases x) (auto simp: validateIPK_def numberIn_def)

lemma emailLocalChar_iff:
  "emailLocalChar c = (letter c \<or> digit c \<or> c \<in> {46, 95, 37, 43, 45})"
  by (auto simp: emailLocalChar_def isLetter_iff isDigit_iff)

lemma emailDomainChar_iff: "emailDomainChar c = (letter c \<or> digit c \<or> c \<in> {46, 45})"
  by (auto simp: emailDomainChar_def isLetter_iff isDigit_iff)

lemma emailSplit_syntax:
  assumes "emailSplit s i j" and "j < length s"
  shows "emailSyntax s"
proof -
  define l where "l = take i s"
  define d where "d = take (j - (i + 1)) (drop (i + 1) s)"
  define t where "t = drop (j + 1) s"
  have ij: "i < j" and at: "s ! i = 64" and dot: "s ! j = 46"
    and parts: "l \<noteq> []" "list_all emailLocalChar l" "d \<noteq> []" "list_all emailDomainChar d"
      "2 \<le> length t" "list_all isLetter t"
    using assms(1) by (simp_all add: emailSplit_def Let_def l_def d_def t_def)
  have i: "i < length s" using ij assms(2) by simp
  have e3: "d @ drop j s = drop (i + 1) s"
  proof -
    have "drop (j - (i + 1)) (drop (i + 1) s) = drop j s" using ij by simp
    then show ?thesis
      unfolding d_def using append_take_drop_id [of "j - (i + 1)" "drop (i + 1) s"] by simp
  qed
  have e4: "[46] @ t = drop j s"
    unfolding t_def using assms(2) dot Cons_nth_drop_Suc [of j s] by simp
  have e2: "[64] @ drop (i + 1) s = drop i s"
    using i at Cons_nth_drop_Suc [of i s] by simp
  have e1: "l @ drop i s = s" unfolding l_def by (rule append_take_drop_id)
  have s: "s = l @ [64] @ d @ [46] @ t"
    by (simp only: e4 e3 e2 e1)
  show ?thesis
    unfolding emailSyntax_def
    using s parts
    by (intro exI [of _ l] exI [of _ d] exI [of _ t])
      (auto simp: list_all_iff emailLocalChar_iff emailDomainChar_iff isLetter_iff)
qed

lemma syntax_emailSplit:
  assumes "s = l @ [64] @ d @ [46] @ t"
    and "l \<noteq> []" "set l \<subseteq> {c. letter c \<or> digit c \<or> c \<in> {46, 95, 37, 43, 45}}"
    and "d \<noteq> []" "set d \<subseteq> {c. letter c \<or> digit c \<or> c \<in> {46, 45}}"
    and "2 \<le> length t" "set t \<subseteq> {c. letter c}"
  shows "emailSplit s (length l) (length l + 1 + length d)"
proof -
  have a: "s ! length l = 64" unfolding assms(1) by simp
  have "s = (l @ [64] @ d) @ [46] @ t" unfolding assms(1) by simp
  then have b: "s ! (length l + 1 + length d) = 46"
    by (metis (no_types, lifting) add.commute append_Cons length_append length_Cons
        list.size(3) nth_append_length One_nat_def add.assoc plus_1_eq_Suc)
  have c: "take (length l) s = l" unfolding assms(1) by simp
  have d: "take (length l + 1 + length d - (length l + 1)) (drop (length l + 1) s) = d"
    unfolding assms(1) by simp
  have e: "drop (length l + 1 + length d + 1) s = t" unfolding assms(1) by simp
  show ?thesis
    unfolding emailSplit_def Let_def c d e
    using a b assms(2-7)
    by (auto simp: list_all_iff emailLocalChar_iff emailDomainChar_iff isLetter_iff)
qed

lemma regex_EMAIL_iff: "regex_EMAIL s = emailSyntax s"
proof
  assume "regex_EMAIL s"
  then obtain i j where "j < length s" "emailSplit s i j"
    by (auto simp: regex_EMAIL_def list_ex_iff)
  then show "emailSyntax s" using emailSplit_syntax by blast
next
  assume "emailSyntax s"
  then obtain l d t where s: "s = l @ [64] @ d @ [46] @ t"
    and parts: "l \<noteq> []" "set l \<subseteq> {c. letter c \<or> digit c \<or> c \<in> {46, 95, 37, 43, 45}}"
      "d \<noteq> []" "set d \<subseteq> {c. letter c \<or> digit c \<or> c \<in> {46, 45}}"
      "2 \<le> length t" "set t \<subseteq> {c. letter c}"
    unfolding emailSyntax_def by blast
  have split: "emailSplit s (length l) (length l + 1 + length d)"
    using syntax_emailSplit [OF s parts] .
  have "length l \<in> set [0..<length s]" "length l + 1 + length d \<in> set [0..<length s]"
    unfolding s using parts(5) by simp_all
  then show "regex_EMAIL s"
    unfolding regex_EMAIL_def list_ex_iff using split by blast
qed

lemma emailSyntax_not_blank: "emailSyntax s \<Longrightarrow> \<not> blank s"
  by (auto simp: emailSyntax_def blank_def isWhiteSpace_def inRange_def)

lemma validateEmail_iff: "isValid (validateEmail (Some s)) = emailSyntax s"
  using emailSyntax_not_blank [of s]
  by (auto simp: validateEmail_def emptyText_iff regex_EMAIL_iff Let_def
        simp del: emptyText.simps)

lemma fieldCheck_rule: "isValid (fieldCheck k d) = rule k d"
  by (cases k)
    (simp_all add: validateNIM_iff validateNama_iff validateEmail_iff validateJurusan_iff
      validateSemester_iff validateIPK_iff)

subsection \<open>Whole-record validation\<close>

lemma fieldKey_all:
  "(\<forall>k. P k) = (P Key_nim \<and> P Key_nama \<and> P Key_email \<and> P Key_jurusan \<and> P Key_semester \<and> P Key_ipk)"
  by (metis fieldKey.exhaust)

lemma validateAllFields_all_valid:
  assumes "\<forall>k. isValid (fieldCheck k d)"
  shows "validateAllFields (fieldsOf d) = \<lparr>allValid = True, errors = []\<rparr>"
  using assms by (simp add: fieldKey_all validateAllFields_def fieldsOf_def)

lemma validateAllFields_one_invalid:
  assumes "\<not> isValid (fieldCheck k d)" and "\<forall>k'. k' \<noteq> k \<longrightarrow> isValid (fieldCheck k' d)"
  shows "validateAllFields (fieldsOf d)
           = \<lparr>allValid = False,
              errors = [(keyName k, validationResult.message (fieldCheck k d))]\<rparr>"
  using assms by (cases k) (simp_all add: fieldKey_all validateAllFields_def fieldsOf_def)

lemma validateAllFields_valid_iff:
  "allValid (validateAllFields (fieldsOf d)) = (\<forall>k. isValid (fieldCheck k d))"
  by (simp add: fieldKey_all validateAllFields_def fieldsOf_def Let_def)

lemma exampleData_checks: "\<forall>k. isValid (fieldCheck k exampleData)"
  unfolding fieldKey_all by code_simp

lemma exampleData_rules: "rule k exampleData"
  using exampleData_checks fieldCheck_rule by blast

lemmas exampleData_six =
  exampleData_rules [of Key_nim] exampleData_rules [of Key_nama] exampleData_rules [of Key_email]
  exampleData_rules [of Key_jurusan] exampleData_rules [of Key_semester]
  exampleData_rules [of Key_ipk]

lemma exampleData_specRules:
  "specRule Key_nim exampleData" "specRule Key_nama exampleData" "specRule Key_email exampleData"
  "specRule Key_jurusan exampleData" "specRule Key_semester exampleData"
  "specRule Key_ipk exampleData"
proof -
  show "specRule Key_nim exampleData" by (simp add: exampleData_def str_def)
  show "specRule Key_nama exampleData" by (simp add: exampleData_def str_def letter_def)
  show "specRule Key_jurusan exampleData" by (simp add: exampleData_def str_def letter_def)
  show "specRule Key_email exampleData" using exampleData_rules [of Key_email] by simp
  show "specRule Key_semester exampleData" using exampleData_rules [of Key_semester] by simp
  show "specRule Key_ipk exampleData" using exampleData_rules [of Key_ipk] by simp
qed

text \<open>
  C7, as stated, fails against the rules of the specification. A \<open>jurusan\<close> of 51
  letters meets all six rules and is rejected; so is a \<open>nim\<close> that is one space; and a
  \<open>nama\<close> with a tab in it breaks the rule of \<open>nama\<close> alone and is accepted, with no
  key in the errors.
\<close>

theorem validateAllFields_spec_rules_diverge:
  "list_all (\<lambda>k. specRule k longJurusan) allKeys
   \<and> validateAllFields (fieldsOf longJurusan)
       = \<lparr>allValid = False,
          errors = [(str ''jurusan'', str ''Jurusan hanya boleh mengandung huruf dan spasi'')]\<rparr>
   \<and> list_all (\<lambda>k. specRule k blankNim) allKeys
   \<and> validateAllFields (fieldsOf blankNim)
       = \<lparr>allValid = False, errors = [(str ''nim'', str ''NIM tidak boleh kosong'')]\<rparr>
   \<and> \<not> specRule Key_nama tabNama
   \<and> list_all (\<lambda>k. specRule k tabNama) (removeAll Key_nama allKeys)
   \<and> validateAllFields (fieldsOf tabNama) = \<lparr>allValid = True, errors = []\<rparr>"
proof -
  have a: "list_all (\<lambda>k. specRule k longJurusan) allKeys"
    using exampleData_specRules
    by (simp add: allKeys_def longJurusan_def letter_def)
  have b: "validateAllFields (fieldsOf longJurusan)
       = \<lparr>allValid = False,
          errors = [(str ''jurusan'', str ''Jurusan hanya boleh mengandung huruf dan spasi'')]\<rparr>"
    by code_simp
  have c: "list_all (\<lambda>k. specRule k blankNim) allKeys"
    using exampleData_specRules
    by (simp add: allKeys_def blankNim_def)
  have d: "validateAllFields (fieldsOf blankNim)
       = \<lparr>allValid = False, errors = [(str ''nim'', str ''NIM tidak boleh kosong'')]\<rparr>"
    by code_simp
  have e: "\<not> specRule Key_nama tabNama"
    by (simp add: tabNama_def letter_def)
  have f: "list_all (\<lambda>k. specRule k tabNama) (removeAll Key_nama allKeys)"
    using exampleData_specRules
    by (simp add: allKeys_def tabNama_def)
  have g: "validateAllFields (fieldsOf tabNama) = \<lparr>allValid = True, errors = []\<rparr>"
    by code_simp
  show ?thesis using a b c d e f g by blast
qed

text \<open>
  C7, amended to the rules that the validators enforce (\<open>rule\<close>): when each of the six
  fields satisfies its rule, \<open>validateAllFields\<close> returns \<open>isValid = true\<close> and no error;
  when exactly one field violates its rule, the result has \<open>isValid = false\<close> and its
  errors are exactly that field's key with the message of its validator; and the
  result has \<open>isValid = true\<close> only when all six rules hold.
\<close>

theorem validateAllFields_rules:
  "((\<forall>k. rule k d) \<longrightarrow>
      validateAllFields (fieldsOf d) = \<lparr>allValid = True, errors = []\<rparr>)
   \<and> (\<not> rule k d \<and> (\<forall>k'. k' \<noteq> k \<longrightarrow> rule k' d) \<longrightarrow>
        validateAllFields (fieldsOf d)
          = \<lparr>allValid = False,
             errors = [(keyName k, validationResult.message (fieldCheck k d))]\<rparr>)
   \<and> allValid (validateAllFields (fieldsOf d)) = (\<forall>k. rule k d)"
  using validateAllFields_all_valid [of d] validateAllFields_one_invalid [of k d]
    validateAllFields_valid_iff [of d]
  by (simp add: fieldCheck_rule)

theorem validateAllFields_rules_witness:
  "list_all (\<lambda>k. rule k exampleData) allKeys
   \<and> validateAllFields (fieldsOf exampleData) = \<lparr>allValid = True, errors = []\<rparr>
   \<and> \<not> rule Key_semester (exampleData\<lparr>semester := Finite 15\<rparr>)
   \<and> list_all (\<lambda>k. rule k (exampleData\<lparr>semester := Finite 15\<rparr>))
       (removeAll Key_semester allKeys)
   \<and> validateAllFields (fieldsOf (exampleData\<lparr>semester := Finite 15\<rparr>))
       = \<lparr>allValid = False,
          errors = [(str ''semester'', str ''Semester harus antara 1-14'')]\<rparr>
   \<and> \<not> rule Key_jurusan longJurusan
   \<and> list_all (\<lambda>k. rule k longJurusan) (removeAll Key_jurusan allKeys)
   \<and> validateAllFields (fieldsOf longJurusan)
       = \<lparr>allValid = False,
          errors = [(str ''jurusan'', str ''Jurusan hanya boleh mengandung huruf dan spasi'')]\<rparr>"
proof -
  have all: "\<forall>k. rule k exampleData" using exampleData_rules by blast
  have sem: "\<not> rule Key_semester (exampleData\<lparr>semester := Finite 15\<rparr>)"
    "\<forall>k'. k' \<noteq> Key_semester \<longrightarrow> rule k' (exampleData\<lparr>semester := Finite 15\<rparr>)"
    using exampleData_six by (simp_all add: fieldKey_all wholeIn_def)
  have semMsg: "validationResult.message (fieldCheck Key_semester (exampleData\<lparr>semester := Finite 15\<rparr>))
                  = str ''Semester harus antara 1-14''"
    by code_simp
  have jur: "\<not> rule Key_jurusan longJurusan"
    "\<forall>k'. k' \<noteq> Key_jurusan \<longrightarrow> rule k' longJurusan"
    using exampleData_six by (simp_all add: fieldKey_all longJurusan_def)
  have jurMsg: "validationResult.message (fieldCheck Key_jurusan longJurusan)
                  = str ''Jurusan hanya boleh mengandung huruf dan spasi''"
    by code_simp
  have one: "validateAllFields (fieldsOf exampleData) = \<lparr>allValid = True, errors = []\<rparr>"
    using validateAllFields_rules [of exampleData Key_nim] all by blast
  have two: "validateAllFields (fieldsOf (exampleData\<lparr>semester := Finite 15\<rparr>))
       = \<lparr>allValid = False,
          errors = [(str ''semester'', str ''Semester harus antara 1-14'')]\<rparr>"
    using validateAllFields_rules [of "exampleData\<lparr>semester := Finite 15\<rparr>" Key_semester]
      sem semMsg by simp
  have three: "validateAllFields (fieldsOf longJurusan)
       = \<lparr>allValid = False,
          errors = [(str ''jurusan'', str ''Jurusan hanya boleh mengandung huruf dan spasi'')]\<rparr>"
    using validateAllFields_rules [of longJurusan Key_jurusan] jur jurMsg by simp
  have lists: "list_all (\<lambda>k. rule k exampleData) allKeys"
    "list_all (\<lambda>k. rule k (exampleData\<lparr>semester := Finite 15\<rparr>)) (removeAll Key_semester allKeys)"
    "list_all (\<lambda>k. rule k longJurusan) (removeAll Key_jurusan allKeys)"
    using all sem(2) jur(2) by (simp_all add: allKeys_def del: rule.simps)
  show ?thesis using one two three lists sem(1) jur(1) by blast
qed

subsection \<open>Adding a record whose nim differs only in case\<close>

lemma lower_IF123456:
  "toLowerCase js (str ''IF123456'') = str ''if123456''"
  "toLowerCase js (str ''if123456'') = str ''if123456''"
  "toLowerCase js (str ''If123456'') = str ''if123456''"
  "toLowerCase js (str ''iF123456'') = str ''if123456''"
  by code_simp+

lemma upper_if123456: "toUpperCase js (str ''if123456'') = str ''IF123456''"
  by code_simp

text \<open>
  C6: from the empty collection, \<open>addStudent\<close> of a valid record with
  \<open>nim = "if123456"\<close> succeeds and stores the record with \<open>nim = "IF123456"\<close>; on the
  collection that results, \<open>addStudent\<close> of a valid record whose \<open>nim\<close> is \<open>IF123456\<close>,
  in upper case as in the claim or with either letter in lower case, fails with the
  error \<open>NIM sudah terdaftar\<close> (so the collection stays as it is).
\<close>

theorem addStudent_duplicate_nim:
  assumes "allValid (validateAllFields (fieldsOf d1))" and "nim d1 = str ''if123456''"
    and "allValid (validateAllFields (fieldsOf d2))"
    and "nim d2 \<in> {str ''IF123456'', str ''if123456'', str ''If123456'', str ''iF123456''}"
  shows "addStudent js [] u1 d1
           = Inr [\<lparr>nim = str ''IF123456'', nama = nama d1, email = email d1,
                   jurusan = jurusan d1, semester = semester d1, ipk = ipk d1,
                   tanggalMasuk = tanggalMasuk d1, student_id = u1\<rparr>]
         \<and> addStudent js [\<lparr>nim = str ''IF123456'', nama = nama d1, email = email d1,
                             jurusan = jurusan d1, semester = semester d1, ipk = ipk d1,
                             tanggalMasuk = tanggalMasuk d1, student_id = u1\<rparr>] u2 d2
           = Inl (str ''NIM sudah terdaftar'')"
proof -
  have "toLowerCase js (nim d2) = str ''if123456''"
    using assms(4) lower_IF123456 by auto
  then have clash: "list_ex (\<lambda>s. toLowerCase js (nim s) = toLowerCase js (nim d2))
            [\<lparr>nim = str ''IF123456'', nama = nama d1, email = email d1,
                             jurusan = jurusan d1, semester = semester d1, ipk = ipk d1,
                             tanggalMasuk = tanggalMasuk d1, student_id = u1\<rparr>]"
    by (simp add: lower_IF123456)
  have first: "addStudent js [] u1 d1
           = Inr [\<lparr>nim = str ''IF123456'', nama = nama d1, email = email d1,
                   jurusan = jurusan d1, semester = semester d1, ipk = ipk d1,
                   tanggalMasuk = tanggalMasuk d1, student_id = u1\<rparr>]"
    unfolding addStudent_def Let_def using assms(1) by (simp add: assms(2) upper_if123456)
  have second: "addStudent js [\<lparr>nim = str ''IF123456'', nama = nama d1, email = email d1,
                             jurusan = jurusan d1, semester = semester d1, ipk = ipk d1,
                             tanggalMasuk = tanggalMasuk d1, student_id = u1\<rparr>] u2 d2
           = Inl (str ''NIM sudah terdaftar'')"
    unfolding addStudent_def Let_def using assms(3) clash by simp
  show ?thesis using first second by simp
qed

lemma exampleData_valid: "allValid (validateAllFields (fieldsOf exampleData))"
  by code_simp

lemma exampleData_upper_valid:
  "allValid (validateAllFields (fieldsOf (exampleData\<lparr>nim := str ''IF123456''\<rparr>)))"
  by code_simp

text \<open>
  The second record of the witness has the \<open>nim\<close> in lower case, so it differs from the
  stored \<open>IF123456\<close> and only the comparison of the lower-cased values finds the clash.
\<close>

theorem addStudent_duplicate_nim_witness:
  "allValid (validateAllFields (fieldsOf exampleData)) \<and> nim exampleData = str ''if123456''
   \<and> nim exampleStudent = str ''IF123456'' \<and> nim exampleData \<noteq> nim exampleStudent
   \<and> addStudent plainPlatform [] (str ''u1'') exampleData = Inr [exampleStudent]
   \<and> addStudent plainPlatform [exampleStudent] (str ''u2'') exampleData
       = Inl (str ''NIM sudah terdaftar'')
   \<and> allValid (validateAllFields (fieldsOf (exampleData\<lparr>nim := str ''IF123456''\<rparr>)))
   \<and> addStudent plainPlatform [exampleStudent] (str ''u2'')
         (exampleData\<lparr>nim := str ''IF123456''\<rparr>)
       = Inl (str ''NIM sudah terdaftar'')"
  using addStudent_duplicate_nim
          [of exampleData exampleData plainPlatform "str ''u1''" "str ''u2''"]
    addStudent_duplicate_nim
          [of exampleData "exampleData\<lparr>nim := str ''IF123456''\<rparr>" plainPlatform "str ''u1''"
              "str ''u2''"]
    exampleData_valid exampleData_upper_valid
  by (simp add: exampleData_def exampleStudent_def)

subsection \<open>What an update does to id and tanggalMasuk\<close>

lemma updateStudent_Inr:
  assumes "updateStudent js students i p = Inr students'"
  shows "students' =
     map (\<lambda>s. if student_id s = i
               then (spread s p)
                      \<lparr>obj_nim := Some (case patch_nim p of
                                          Given newNim \<Rightarrow>
                                            if newNim \<noteq> [] then toUpperCase js newNim else nim s
                                        | _ \<Rightarrow> nim s)\<rparr>
               else objectOf s) students"
  using assms by (simp add: updateStudent_def split: option.splits)

text \<open>
  C4, as stated, fails: the payload is spread over the record whole, so a property
  \<open>id\<close> or \<open>tanggalMasuk\<close> of the payload replaces the field. Here the update of the
  record \<open>u1\<close> succeeds and changes its id to \<open>u9\<close> and its date to \<open>2000-01-01\<close>; and
  with the payload \<open>{ id: undefined }\<close> it succeeds and leaves the record without id.
\<close>

theorem updateStudent_overwrites_id_and_date:
  "updateStudent plainPlatform [exampleStudent] (str ''u1'') datePatch
     = Inr [(objectOf exampleStudent)
              \<lparr>obj_tanggalMasuk := Some (str ''2000-01-01''), obj_id := Some (str ''u9'')\<rparr>]
   \<and> student_id exampleStudent = str ''u1'' \<and> tanggalMasuk exampleStudent = str ''2023-09-01''
   \<and> updateStudent plainPlatform [exampleStudent] (str ''u1'') (emptyPatch\<lparr>patch_id := Undefined\<rparr>)
     = Inr [(objectOf exampleStudent)\<lparr>obj_id := None\<rparr>]"
  by (simp add: updateStudent_def updateChecks_def datePatch_def emptyPatch_def spread_def
        exampleStudent_def objectOf_def)

text \<open>
  C4, amended: after a successful update the collection has the records it had, in
  their places. A record that is not the target keeps its \<open>id\<close> and its \<open>tanggalMasuk\<close>.
  The target keeps its \<open>id\<close> when the payload has no property \<open>id\<close>; when the payload
  has one, the \<open>id\<close> becomes the value of that property, \<open>undefined\<close> included. The same
  holds of \<open>tanggalMasuk\<close>, independently of \<open>id\<close>.
\<close>

theorem updateStudent_id_tanggalMasuk:
  assumes "updateStudent js students i p = Inr students'"
  shows "length students' = length students
         \<and> (\<forall>k < length students.
               obj_id (students' ! k)
                 = (if student_id (students ! k) = i
                    then (case patch_id p of
                            Absent \<Rightarrow> Some (student_id (students ! k))
                          | Undefined \<Rightarrow> None
                          | Given v \<Rightarrow> Some v)
                    else Some (student_id (students ! k)))
               \<and> obj_tanggalMasuk (students' ! k)
                   = (if student_id (students ! k) = i
                      then (case patch_tanggalMasuk p of
                              Absent \<Rightarrow> Some (tanggalMasuk (students ! k))
                            | Undefined \<Rightarrow> None
                            | Given v \<Rightarrow> Some v)
                      else Some (tanggalMasuk (students ! k))))"
proof -
  have id: "obj_id (spread s p) = (case patch_id p of
              Absent \<Rightarrow> Some (student_id s) | Undefined \<Rightarrow> None | Given v \<Rightarrow> Some v)" for s
    by (cases "patch_id p") (simp_all add: spread_def)
  have date: "obj_tanggalMasuk (spread s p) = (case patch_tanggalMasuk p of
              Absent \<Rightarrow> Some (tanggalMasuk s) | Undefined \<Rightarrow> None | Given v \<Rightarrow> Some v)" for s
    by (cases "patch_tanggalMasuk p") (simp_all add: spread_def)
  show ?thesis
    unfolding updateStudent_Inr [OF assms] by (simp add: id date objectOf_def)
qed

theorem updateStudent_id_tanggalMasuk_witness:
  "updateStudent plainPlatform exampleRoster (str ''u1'')
       (emptyPatch\<lparr>patch_nama := Given (str ''Siti''),
                    patch_tanggalMasuk := Given (str ''2000-01-01'')\<rparr>)
     = Inr [objectOf (exampleRoster ! 0),
            (objectOf exampleStudent)
              \<lparr>obj_nama := Some (str ''Siti''), obj_tanggalMasuk := Some (str ''2000-01-01'')\<rparr>,
            objectOf (exampleRoster ! 2)]
   \<and> student_id (exampleRoster ! 1) = str ''u1''
   \<and> obj_id ((objectOf exampleStudent)
              \<lparr>obj_nama := Some (str ''Siti''), obj_tanggalMasuk := Some (str ''2000-01-01'')\<rparr>)
       = Some (str ''u1'')
   \<and> obj_tanggalMasuk ((objectOf exampleStudent)
              \<lparr>obj_nama := Some (str ''Siti''), obj_tanggalMasuk := Some (str ''2000-01-01'')\<rparr>)
       = Some (str ''2000-01-01'')
   \<and> obj_tanggalMasuk (objectOf (exampleRoster ! 0)) = Some (tanggalMasuk (exampleRoster ! 0))
   \<and> obj_id (objectOf (exampleRoster ! 0)) = Some (str ''u0'')"
proof -
  have run: "updateStudent plainPlatform exampleRoster (str ''u1'')
       (emptyPatch\<lparr>patch_nama := Given (str ''Siti''),
                    patch_tanggalMasuk := Given (str ''2000-01-01'')\<rparr>)
     = Inr [objectOf (exampleRoster ! 0),
            (objectOf exampleStudent)
              \<lparr>obj_nama := Some (str ''Siti''), obj_tanggalMasuk := Some (str ''2000-01-01'')\<rparr>,
            objectOf (exampleRoster ! 2)]"
    by code_simp
  have ids: "student_id (exampleRoster ! 0) = str ''u0''" "student_id (exampleRoster ! 1) = str ''u1''"
    by (simp_all add: exampleRoster_def exampleStudent_def)
  from updateStudent_id_tanggalMasuk [OF run] show ?thesis
    using run ids by (simp add: emptyPatch_def objectOf_def exampleRoster_def exampleStudent_def)
qed

subsection \<open>Updating an id that is not in the collection\<close>

text \<open>
  The lookup of the target, and with it the error \<open>Mahasiswa tidak ditemukan\<close>, is
  inside the test for a changed field: for an id that no record has, the update fails
  when the payload has one of the six fields, and succeeds, changing nothing, when it
  has none.
\<close>

lemma updateStudent_absent_id:
  assumes "\<forall>s \<in> set students. student_id s \<noteq> i"
  shows "updateStudent js students i p =
     (if truthy (patch_nim p) \<or> truthy (patch_nama p) \<or> truthy (patch_email p)
         \<or> truthy (patch_jurusan p) \<or> defined (patch_semester p) \<or> defined (patch_ipk p)
      then Inl (str ''Mahasiswa tidak ditemukan'') else Inr (map objectOf students))"
proof -
  have "find (\<lambda>s. student_id s = i) students = None"
    using assms by (simp add: find_None_iff)
  moreover have "map (\<lambda>s. if student_id s = i then f s else objectOf s) students
                   = map objectOf students" for f
    using assms by (induction students) auto
  ultimately show ?thesis
    using assms by (simp add: updateStudent_def updateChecks_def)
qed

text \<open>
  C5 at the empty payload: the id \<open>u2\<close> is not in the collection, and \<open>updateStudent\<close>
  returns \<open>true\<close> (with the collection unchanged) where the claim has it fail with the
  not-found error.
\<close>

theorem updateStudent_absent_id_empty_payload:
  "find (\<lambda>s. student_id s = str ''u2'') [exampleStudent] = None
   \<and> updateStudent js [exampleStudent] (str ''u2'') emptyPatch = Inr [objectOf exampleStudent]"
  by (simp add: updateStudent_def updateChecks_def emptyPatch_def exampleStudent_def)

subsection \<open>Save, clear, restore\<close>

lemma STORAGE_BACKUP_distinct: "STORAGE_KEY \<noteq> BACKUP_KEY" "BACKUP_KEY \<noteq> STORAGE_KEY"
  by (simp_all add: STORAGE_KEY_def BACKUP_KEY_def)

lemma parsed_valueOfStudent:
  assumes "finiteNumber (semester s)" "finiteNumber (ipk s)"
  shows "parsed (valueOfStudent s) = valueOfStudent s"
  using assms by (cases "semester s"; cases "ipk s") (simp_all add: valueOfStudent_def)

lemma studentOfValue_valueOfStudent: "studentOfValue (valueOfStudent s) = Some s"
  by (simp add: studentOfValue_def valueOfStudent_def)

lemma studentsOfValue_map:
  "studentsOfValue (VArray (map valueOfStudent students)) = Some students"
  by (simp add: list_all_iff studentOfValue_valueOfStudent map_idI)

lemma snapshot_finite:
  assumes "\<forall>s \<in> set students. finiteNumber (semester s) \<and> finiteNumber (ipk s)"
  shows "snapshot now students =
     JsonText
       (VObject [(str ''version'', VString (str ''1.0'')), (str ''timestamp'', VString now),
                 (str ''count'', VNumber (Finite (of_nat (length students)))),
                 (str ''data'', VArray (map valueOfStudent students))])"
proof -
  have "map parsed (map valueOfStudent students) = map valueOfStudent students"
    using assms by (simp add: parsed_valueOfStudent)
  then show ?thesis by (simp add: snapshot_def JSON_stringify_def)
qed

lemma snapshot_truthy: "truthyText (snapshot now students)"
  by (simp add: snapshot_def JSON_stringify_def)

lemma saveToFile_accepted:
  assumes "writesAccepted accepts store (snapshot now students)"
  shows "saveToFile accepts now students store
           = (\<lparr>success = True,
               message = str ''Data berhasil disimpan. '' @ decimal (length students)
                         @ str '' mahasiswa tersimpan.'',
               data = None, timestamp = Some (VString now)\<rparr>,
              (backedUp store)(STORAGE_KEY \<mapsto> snapshot now students))"
proof -
  have a: "accepts (backedUp store) STORAGE_KEY (snapshot now students)"
    using assms by (simp add: writesAccepted_def)
  have b: "(case store STORAGE_KEY of
              None \<Rightarrow> Some store
            | Some existingData \<Rightarrow>
                if truthyText existingData
                then setItem accepts store BACKUP_KEY existingData
                else Some store) = Some (backedUp store)"
    using assms by (auto simp: writesAccepted_def backedUp_def setItem_def split: option.splits)
  show ?thesis
    unfolding saveToFile_def Let_def b
    using a by (simp add: setItem_def snapshot_def)
qed

lemma clearAllData_accepted:
  assumes "store STORAGE_KEY = Some snap" and "truthyText snap"
    and "accepts store BACKUP_KEY snap"
  shows "clearAllData accepts store
           = (\<lparr>success = True,
               message = str ''Semua data berhasil dihapus. Backup tersedia untuk pemulihan.'',
               data = None, timestamp = None\<rparr>,
              (store(BACKUP_KEY \<mapsto> snap))(STORAGE_KEY := None))"
  using assms by (simp add: clearAllData_def setItem_def)

lemma restoreFromBackup_accepted:
  assumes "store BACKUP_KEY = Some (JsonText (VObject kvs))"
    and "accepts store STORAGE_KEY (JsonText (VObject kvs))"
  shows "restoreFromBackup accepts store
           = (\<lparr>success = True, message = str ''Data berhasil dipulihkan dari backup.'',
               data = jsonProperty (VObject kvs) (str ''data''),
               timestamp = jsonProperty (VObject kvs) (str ''timestamp'')\<rparr>,
              store(STORAGE_KEY \<mapsto> JsonText (VObject kvs)))"
  using assms by (simp add: restoreFromBackup_def setItem_def)

text \<open>
  C8, as stated, fails in two ways. A record whose \<open>ipk\<close> is \<open>NaN\<close> comes back from the
  sequence with \<open>ipk\<close> \<open>null\<close>: the three calls succeed, and the data returned is not the
  collection saved. And a store that refuses the write makes the save fail.
\<close>

theorem save_clear_restore_loses:
  "(case saveToFile acceptAll exampleNow nanCollection Map.empty of (r1, store1) \<Rightarrow>
      case clearAllData acceptAll store1 of (r2, store2) \<Rightarrow>
        case restoreFromBackup acceptAll store2 of (r3, store3) \<Rightarrow>
          success r1 \<and> success r2 \<and> success r3
          \<and> data r3 = Some (VArray [parsed (valueOfStudent (withIdIpk ''b'' NaN))])
          \<and> jsonProperty (parsed (valueOfStudent (withIdIpk ''b'' NaN))) (str ''ipk'') = Some VNull
          \<and> data r3 \<noteq> Some (VArray (map valueOfStudent nanCollection))
          \<and> Option.bind (data r3) studentsOfValue \<noteq> Some nanCollection)
   \<and> fst (saveToFile refuseAll exampleNow [exampleStudent] Map.empty)
       = \<lparr>success = False,
          message = str ''Penyimpanan penuh. Hapus beberapa data dan coba lagi.'',
          data = None, timestamp = None\<rparr>
   \<and> snd (saveToFile refuseAll exampleNow [exampleStudent] Map.empty) STORAGE_KEY = None"
  by code_simp

text \<open>
  C8, amended: for a collection whose \<open>semester\<close> and \<open>ipk\<close> values are finite numbers
  and a store that accepts the four writes of the sequence, \<open>saveToFile\<close>, then
  \<open>clearAllData\<close>, then \<open>restoreFromBackup\<close> all succeed; the save puts the snapshot of
  the collection into the current slot, the clear empties that slot, and the restore
  puts the same snapshot back; the data that the restore returns is the array of the
  records saved, and reading it back as records gives the collection.
\<close>

theorem save_clear_restore:
  assumes "\<forall>s \<in> set students. finiteNumber (semester s) \<and> finiteNumber (ipk s)"
    and "writesAccepted accepts store (snapshot now students)"
  shows "case saveToFile accepts now students store of (r1, store1) \<Rightarrow>
           case clearAllData accepts store1 of (r2, store2) \<Rightarrow>
             case restoreFromBackup accepts store2 of (r3, store3) \<Rightarrow>
               success r1 \<and> success r2 \<and> success r3
               \<and> store1 STORAGE_KEY = Some (snapshot now students)
               \<and> store2 STORAGE_KEY = None
               \<and> store3 STORAGE_KEY = Some (snapshot now students)
               \<and> snapshot now students
                   = JsonText
                       (VObject [(str ''version'', VString (str ''1.0'')),
                                 (str ''timestamp'', VString now),
                                 (str ''count'', VNumber (Finite (of_nat (length students)))),
                                 (str ''data'', VArray (map valueOfStudent students))])
               \<and> data r3 = Some (VArray (map valueOfStudent students))
               \<and> Option.bind (data r3) studentsOfValue = Some students
               \<and> timestamp r3 = Some (VString now)"
proof -
  let ?snap = "snapshot now students"
  let ?store1 = "(backedUp store)(STORAGE_KEY \<mapsto> ?snap)"
  let ?store2 = "(?store1(BACKUP_KEY \<mapsto> ?snap))(STORAGE_KEY := None)"
  have snap: "?snap =
     JsonText
       (VObject [(str ''version'', VString (str ''1.0'')), (str ''timestamp'', VString now),
                 (str ''count'', VNumber (Finite (of_nat (length students)))),
                 (str ''data'', VArray (map valueOfStudent students))])"
    by (rule snapshot_finite [OF assms(1)])
  have save: "saveToFile accepts now students store
           = (\<lparr>success = True,
               message = str ''Data berhasil disimpan. '' @ decimal (length students)
                         @ str '' mahasiswa tersimpan.'',
               data = None, timestamp = Some (VString now)\<rparr>, ?store1)"
    by (rule saveToFile_accepted [OF assms(2)])
  have w3: "accepts ?store1 BACKUP_KEY ?snap" and w4: "accepts ?store2 STORAGE_KEY ?snap"
    using assms(2) by (simp_all add: writesAccepted_def)
  have clear: "clearAllData accepts ?store1
           = (\<lparr>success = True,
               message = str ''Semua data berhasil dihapus. Backup tersedia untuk pemulihan.'',
               data = None, timestamp = None\<rparr>, ?store2)"
    using clearAllData_accepted [of ?store1 ?snap accepts] snapshot_truthy [of now students] w3
    by simp
  have b2: "?store2 BACKUP_KEY = Some ?snap"
    using STORAGE_BACKUP_distinct by simp
  have restore: "restoreFromBackup accepts ?store2
           = (\<lparr>success = True, message = str ''Data berhasil dipulihkan dari backup.'',
               data = Some (VArray (map valueOfStudent students)),
               timestamp = Some (VString now)\<rparr>,
              ?store2(STORAGE_KEY \<mapsto> ?snap))"
    using restoreFromBackup_accepted [of ?store2 _ accepts] b2 w4 unfolding snap by simp
  show ?thesis
    unfolding save clear restore prod.case
    using snap by (simp add: studentsOfValue_map del: studentsOfValue.simps)
qed

theorem save_clear_restore_witness:
  "finiteNumber (semester exampleStudent) \<and> finiteNumber (ipk exampleStudent)
   \<and> writesAccepted acceptAll Map.empty (snapshot exampleNow [exampleStudent])
   \<and> (case saveToFile acceptAll exampleNow [exampleStudent] Map.empty of (r1, store1) \<Rightarrow>
        case clearAllData acceptAll store1 of (r2, store2) \<Rightarrow>
          case restoreFromBackup acceptAll store2 of (r3, store3) \<Rightarrow>
            success r1 \<and> success r2 \<and> success r3
            \<and> store2 STORAGE_KEY = None
            \<and> store3 STORAGE_KEY = store1 STORAGE_KEY
            \<and> data r3 = Some (VArray [valueOfStudent exampleStudent])
            \<and> Option.bind (data r3) studentsOfValue = Some [exampleStudent])"
proof -
  have f: "\<forall>s \<in> set [exampleStudent]. finiteNumber (semester s) \<and> finiteNumber (ipk s)"
    by (simp add: exampleStudent_def)
  have w: "writesAccepted acceptAll Map.empty (snapshot exampleNow [exampleStudent])"
    by (simp add: writesAccepted_def acceptAll_def)
  show ?thesis
    using save_clear_restore [OF f w] f w
    by (auto split: prod.splits simp del: studentsOfValue.simps)
qed

end
